theory Spec2Isabelle
  imports Main
begin

section \<open>JavaScript string primitives used by the composer\<close>

text \<open>
  A JavaScript string is a sequence of UTF-16 code units; it is modelled as a
  \<^typ>\<open>string\<close> whose characters stand for the code units below \<open>0x100\<close>.
  Indices and lengths are JavaScript numbers holding integers, modelled as \<^typ>\<open>int\<close>.
\<close>

definition newline :: char where
  "newline = CHR 0x0A"

definition isWhitespace :: "char \<Rightarrow> bool" where
  \<comment> \<open>the class \<open>\s\<close> of a regular expression, which is also what \<open>trim\<close> strips:
      TAB, LF, VT, FF, CR, SP and NBSP among the code units below \<open>0x100\<close>\<close>
  "isWhitespace c = (c \<in> {CHR 0x09, CHR 0x0A, CHR 0x0B, CHR 0x0C, CHR 0x0D, CHR 0x20, CHR 0xA0})"

definition js_slice :: "string \<Rightarrow> int \<Rightarrow> int \<Rightarrow> string" where
  \<comment> \<open>\<open>s.slice(b, e)\<close>: a negative index counts from the end, both are clamped to the string\<close>
  "js_slice s b e =
     (let len = int (length s);
          from = (if b < 0 then max (len + b) 0 else min b len);
          to = (if e < 0 then max (len + e) 0 else min e len)
      in take (nat (to - from)) (drop (nat from) s))"

definition js_sliceFrom :: "string \<Rightarrow> int \<Rightarrow> string" where
  \<comment> \<open>\<open>s.slice(b)\<close>: the end defaults to the length\<close>
  "js_sliceFrom s b = js_slice s b (int (length s))"

fun lastIndexOf :: "string \<Rightarrow> char \<Rightarrow> int" where
  \<comment> \<open>\<open>s.lastIndexOf(c)\<close> for a search string of one code unit: -1 when absent\<close>
  "lastIndexOf [] c = - 1"
| "lastIndexOf (x # xs) c =
     (let r = lastIndexOf xs c
      in if 0 \<le> r then r + 1 else if x = c then 0 else - 1)"

definition js_includes :: "string \<Rightarrow> char \<Rightarrow> bool" where
  \<comment> \<open>\<open>s.includes(c)\<close> for a search string of one code unit\<close>
  "js_includes s c = (c \<in> set s)"

definition startsWith :: "string \<Rightarrow> char \<Rightarrow> bool" where
  \<comment> \<open>\<open>s.startsWith(c)\<close> for a search string of one code unit\<close>
  "startsWith s c = (case s of [] \<Rightarrow> False | x # _ \<Rightarrow> x = c)"

definition charAt :: "string \<Rightarrow> int \<Rightarrow> char option" where
  \<comment> \<open>\<open>s[i]\<close>: \<open>undefined\<close> (here \<open>None\<close>) outside the string\<close>
  "charAt s i = (if 0 \<le> i \<and> i < int (length s) then Some (s ! nat i) else None)"

definition trim :: "string \<Rightarrow> string" where
  "trim s = rev (dropWhile isWhitespace (rev (dropWhile isWhitespace s)))"

definition js_includes_str :: "string \<Rightarrow> string \<Rightarrow> bool" where
  \<comment> \<open>\<open>s.includes(p)\<close> for any search string: \<open>p\<close> occurs somewhere in \<open>s\<close>\<close>
  "js_includes_str s p = list_ex (\<lambda>i. take (length p) (drop i s) = p) [0..<Suc (length s)]"

definition js_rem :: "int \<Rightarrow> int \<Rightarrow> int" where
  \<comment> \<open>the operator \<open>%\<close> on integers: the remainder takes the sign of the dividend
      (the divisor is never 0 where the composer uses it)\<close>
  "js_rem a b = sgn a * (\<bar>a\<bar> mod \<bar>b\<bar>)"

definition js_nth :: "'a list \<Rightarrow> int \<Rightarrow> 'a option" where
  \<comment> \<open>\<open>xs[i]\<close> on an array: \<open>undefined\<close> (here \<open>None\<close>) outside the array\<close>
  "js_nth xs i = (if 0 \<le> i \<and> i < int (length xs) then Some (xs ! nat i) else None)"

section \<open>Trigger detection (Composer.tsx)\<close>

definition MIN_AT_QUERY_LENGTH :: int where
  "MIN_AT_QUERY_LENGTH = 1"

record AtQueryState =
  query :: string
  start :: int
  endpos :: int

definition findAtQuery :: "string \<Rightarrow> int \<Rightarrow> int \<Rightarrow> AtQueryState option" where
  "findAtQuery text cursorIndex minLength =
     (if cursorIndex < 0 then None
      else
        let beforeCursor = js_slice text 0 cursorIndex;
            lineStart = lastIndexOf beforeCursor newline + 1;
            line = js_sliceFrom beforeCursor lineStart;
            atIndex = lastIndexOf line CHR ''@''
        in if atIndex < 0 then None
           else if 0 < atIndex \<and>
                   (case charAt line (atIndex - 1) of
                      None \<Rightarrow> False
                    | Some prevChar \<Rightarrow> \<not> isWhitespace prevChar) then None
           else
             let afterAt = js_sliceFrom line (atIndex + 1)
             in if js_includes afterAt CHR '' '' then None
                else if int (length afterAt) < minLength then None
                else Some \<lparr>query = afterAt, start = lineStart + atIndex, endpos = cursorIndex\<rparr>)"

definition slashQuery :: "string \<Rightarrow> string option" where
  "slashQuery text =
     (if \<not> startsWith text CHR ''/'' then None
      else if js_includes text newline then None
      else let query = js_sliceFrom text 1
           in if js_includes query CHR '' '' then None else Some query)"


definition isSlashOpen :: "bool \<Rightarrow> string \<Rightarrow> bool" where
  "isSlashOpen disabled text = (slashQuery text \<noteq> None \<and> \<not> disabled)"

definition atState :: "bool \<Rightarrow> string \<Rightarrow> int \<Rightarrow> AtQueryState option" where
  "atState disabled text cursorIndex =
     (if disabled \<or> isSlashOpen disabled text then None
      else findAtQuery text cursorIndex MIN_AT_QUERY_LENGTH)"

subsection \<open>Mention detection as the specification words it\<close>

text \<open>
  The specification describes mention detection by positions of the buffer: the line
  start is the index after the last newline before the cursor, the trigger starts at the
  last \<open>@\<close> between the line start and the cursor. \<open>lastIndexIn P a b\<close> is the last
  index in \<open>[a, b)\<close> that satisfies \<open>P\<close>.
\<close>

definition lastIndexIn :: "(nat \<Rightarrow> bool) \<Rightarrow> nat \<Rightarrow> nat \<Rightarrow> nat option" where
  "lastIndexIn P a b = (case filter P (rev [a..<b]) of [] \<Rightarrow> None | i # _ \<Rightarrow> Some i)"

definition spec_cursor :: "string \<Rightarrow> int \<Rightarrow> nat" where
  \<comment> \<open>the end of the text before the cursor: the cursor itself, or the end of the buffer
      when the cursor is past it; nothing lies before a negative cursor\<close>
  "spec_cursor text cursorIndex = min (nat cursorIndex) (length text)"

definition spec_lineStart :: "string \<Rightarrow> int \<Rightarrow> nat" where
  "spec_lineStart text cursorIndex =
     (case lastIndexIn (\<lambda>i. text ! i = newline) 0 (spec_cursor text cursorIndex) of
        None \<Rightarrow> 0
      | Some i \<Rightarrow> Suc i)"

definition spec_mention :: "string \<Rightarrow> int \<Rightarrow> int \<Rightarrow> AtQueryState option" where
  "spec_mention text cursorIndex minLength =
     (case lastIndexIn (\<lambda>i. text ! i = CHR ''@'')
             (spec_lineStart text cursorIndex) (spec_cursor text cursorIndex) of
        None \<Rightarrow> None
      | Some a \<Rightarrow>
          let afterText = map ((!) text) [Suc a..<spec_cursor text cursorIndex]
          in if (a = spec_lineStart text cursorIndex \<or> isWhitespace (text ! (a - 1)))
                \<and> CHR '' '' \<notin> set afterText
                \<and> minLength \<le> int (length afterText)
             then Some \<lparr>query = afterText, start = int a, endpos = cursorIndex\<rparr>
             else None)"


section \<open>The composer's state and handlers (Composer.tsx)\<close>

record SlashItem =
  item_id :: string
  title :: string
  hint :: "string option"
  description :: "string option"
  insertText :: string

text \<open>
  The props that the completion logic reads. Of \<open>attachments\<close> only the length matters
  to it. \<open>filterSlashItems\<close> is imported from \<open>utils/slash\<close>; the functions below
  take it as the parameter \<open>flt\<close>.
\<close>

record ComposerProps =
  disabled :: bool
  isSavingAttachments :: bool
  attachments :: nat
  slashItems :: "SlashItem list"
  fileItems :: "SlashItem list"

text \<open>The three \<open>useState\<close> cells; \<open>text_st\<close> is the cell \<open>text\<close>.\<close>

record ComposerState =
  text_st :: string
  completionIndex :: int
  cursorIndex :: int

type_synonym SlashFilter = "SlashItem list \<Rightarrow> string \<Rightarrow> SlashItem list"

definition canSend :: "ComposerProps \<Rightarrow> ComposerState \<Rightarrow> bool" where
  "canSend p s =
     (\<not> disabled p \<and> \<not> isSavingAttachments p \<and> (trim (text_st s) \<noteq> [] \<or> 0 < attachments p))"

definition filteredSlashItems :: "SlashFilter \<Rightarrow> ComposerProps \<Rightarrow> ComposerState \<Rightarrow> SlashItem list" where
  "filteredSlashItems flt p s =
     (case slashQuery (text_st s) of
        None \<Rightarrow> []
      | Some q \<Rightarrow> if \<not> isSlashOpen (disabled p) (text_st s) then [] else flt (slashItems p) q)"

definition atStateOf :: "ComposerProps \<Rightarrow> ComposerState \<Rightarrow> AtQueryState option" where
  "atStateOf p s = atState (disabled p) (text_st s) (cursorIndex s)"

definition atQuery :: "ComposerProps \<Rightarrow> ComposerState \<Rightarrow> string option" where
  "atQuery p s = map_option query (atStateOf p s)"

definition isAtOpen :: "ComposerProps \<Rightarrow> ComposerState \<Rightarrow> bool" where
  \<comment> \<open>\<open>Boolean(atQuery && !disabled && !isSlashOpen)\<close>: an empty query is falsy\<close>
  "isAtOpen p s =
     ((case atQuery p s of None \<Rightarrow> False | Some q \<Rightarrow> q \<noteq> [])
      \<and> \<not> disabled p \<and> \<not> isSlashOpen (disabled p) (text_st s))"

definition activeItems :: "SlashFilter \<Rightarrow> ComposerProps \<Rightarrow> ComposerState \<Rightarrow> SlashItem list" where
  "activeItems flt p s =
     (if isSlashOpen (disabled p) (text_st s) then filteredSlashItems flt p s
      else if isAtOpen p s then fileItems p
      else [])"

definition isCompletionOpen :: "ComposerProps \<Rightarrow> ComposerState \<Rightarrow> bool" where
  "isCompletionOpen p s = (isSlashOpen (disabled p) (text_st s) \<or> isAtOpen p s)"

text \<open>
  \<open>applyText\<close> also asks the browser, in the next animation frame, to focus the
  textarea and to put its selection at the cursor; that request does not touch the
  three state cells and is left out.
\<close>

definition applyText :: "string \<Rightarrow> int option \<Rightarrow> ComposerState \<Rightarrow> ComposerState" where
  "applyText nextText nextCursor s =
     (let cursor = (case nextCursor of None \<Rightarrow> int (length nextText) | Some c \<Rightarrow> c)
      in s\<lparr>text_st := nextText, cursorIndex := cursor, completionIndex := 0\<rparr>)"

definition handleSend :: "ComposerProps \<Rightarrow> ComposerState \<Rightarrow> ComposerState" where
  "handleSend p s = (if \<not> canSend p s then s else s\<lparr>text_st := [], cursorIndex := 0\<rparr>)"

definition handleSelectSlashItem :: "SlashItem \<Rightarrow> ComposerState \<Rightarrow> ComposerState" where
  "handleSelectSlashItem item s =
     applyText (insertText item) (Some (int (length (insertText item)))) s"

definition handleSelectFileItem :: "ComposerProps \<Rightarrow> SlashItem \<Rightarrow> ComposerState \<Rightarrow> ComposerState" where
  "handleSelectFileItem p item s =
     (case atStateOf p s of
        None \<Rightarrow> applyText (insertText item) (Some (int (length (insertText item)))) s
      | Some st \<Rightarrow>
          let before = js_slice (text_st s) 0 (start st);
              after = js_sliceFrom (text_st s) (endpos st);
              nextText = before @ insertText item @ after;
              cursor = int (length before) + int (length (insertText item))
          in applyText nextText (Some cursor) s)"

definition clearAtQuery :: "ComposerProps \<Rightarrow> ComposerState \<Rightarrow> ComposerState" where
  "clearAtQuery p s =
     (case atStateOf p s of
        None \<Rightarrow> s
      | Some st \<Rightarrow>
          let before = js_slice (text_st s) 0 (start st);
              after = js_sliceFrom (text_st s) (endpos st)
          in applyText (before @ after) (Some (start st)) s)"

definition handleSelectSkill :: "string \<Rightarrow> ComposerState \<Rightarrow> ComposerState" where
  "handleSelectSkill name s =
     (let snippet = ''$'' @ name;
          trimmed = trim (text_st s)
      in if trimmed = [] then applyText (snippet @ '' '') None s
         else if js_includes_str trimmed snippet then applyText (text_st s) None s
         else applyText (trim (text_st s) @ '' '' @ snippet @ '' '') None s)"

datatype Key = ArrowDown | ArrowUp | Enter | Escape | OtherKey

text \<open>
  \<open>onKeyDown\<close>. On Enter the handler reads \<open>activeItems[completionIndex]\<close>; outside
  the array that is \<open>undefined\<close>, reading its \<open>insertText\<close> throws, and the handler
  ends with no state set. After the Enter branch the code falls through to the test for
  Escape, which fails for the Enter key.
\<close>

definition onKeyDown :: "SlashFilter \<Rightarrow> Key \<Rightarrow> bool \<Rightarrow> ComposerProps \<Rightarrow> ComposerState \<Rightarrow> ComposerState" where
  "onKeyDown flt key metaKey p s =
     (if disabled p then s
      else if key = Enter \<and> metaKey then handleSend p s
      else if isCompletionOpen p s then
        (let n = int (length (activeItems flt p s)) in
         case key of
           ArrowDown \<Rightarrow>
             if 0 < n then s\<lparr>completionIndex := js_rem (completionIndex s + 1) n\<rparr> else s
         | ArrowUp \<Rightarrow>
             if 0 < n then s\<lparr>completionIndex := js_rem (completionIndex s - 1 + n) n\<rparr> else s
         | Enter \<Rightarrow>
             if 0 < n then
               (case js_nth (activeItems flt p s) (completionIndex s) of
                  None \<Rightarrow> s
                | Some item \<Rightarrow>
                    if isSlashOpen (disabled p) (text_st s) then handleSelectSlashItem item s
                    else handleSelectFileItem p item s)
             else s
         | Escape \<Rightarrow>
             if isSlashOpen (disabled p) (text_st s) then applyText [] (Some 0) s
             else clearAtQuery p s
         | OtherKey \<Rightarrow> s)
      else s)"

text \<open>
  The events that reach the three state cells: the textarea's \<open>onChange\<close> (new value
  and \<open>selectionStart\<close>), its \<open>onSelect\<close>, \<open>onClick\<close> and \<open>onKeyUp\<close> (all three
  store \<open>selectionStart\<close>, or the length of the textarea's value, which is the cell
  \<open>text\<close> of this controlled input), \<open>onKeyDown\<close>, a click or a hover on an item of the rendered
  menu, the skill selector, and a render with new props. A menu event can only come from
  an item that is rendered, so it is ignored when the menu does not show that item.
\<close>

datatype ComposerEvent =
    Change string "int option"
  | Select "int option"
  | KeyDown Key bool
  | MenuSelect SlashItem
  | MenuHover nat
  | SelectSkill string
  | Props ComposerProps

definition handle :: "SlashFilter \<Rightarrow> ComposerEvent \<Rightarrow> ComposerProps \<Rightarrow> ComposerState \<Rightarrow> ComposerState" where
  "handle flt ev p s =
     (case ev of
        Change nextValue selectionStart \<Rightarrow>
          s\<lparr>text_st := nextValue,
            cursorIndex := (case selectionStart of None \<Rightarrow> int (length nextValue) | Some c \<Rightarrow> c)\<rparr>
      | Select selectionStart \<Rightarrow>
          s\<lparr>cursorIndex := (case selectionStart of None \<Rightarrow> int (length (text_st s)) | Some c \<Rightarrow> c)\<rparr>
      | KeyDown key metaKey \<Rightarrow> onKeyDown flt key metaKey p s
      | MenuSelect item \<Rightarrow>
          if isSlashOpen (disabled p) (text_st s) \<and> item \<in> set (filteredSlashItems flt p s)
          then handleSelectSlashItem item s
          else if isAtOpen p s \<and> item \<in> set (fileItems p)
          then handleSelectFileItem p item s
          else s
      | MenuHover index \<Rightarrow>
          if isCompletionOpen p s \<and> index < length (activeItems flt p s)
          then s\<lparr>completionIndex := int index\<rparr>
          else s
      | SelectSkill name \<Rightarrow> handleSelectSkill name s
      | Props p' \<Rightarrow> s)"

text \<open>
  After the render that follows an event React runs the effects whose dependencies
  changed, in the order of the source: the first sets \<open>completionIndex\<close> to 0 (in both of
  its branches), the second clamps it with a functional update, which sees the value the
  first one set. Neither effect depends on \<open>completionIndex\<close>, so the render they cause
  runs no further effect.
\<close>

definition resetDeps :: "ComposerProps \<Rightarrow> ComposerState \<Rightarrow> string option \<times> bool \<times> string option" where
  "resetDeps p s = (atQuery p s, isCompletionOpen p s, slashQuery (text_st s))"

definition clampDeps :: "SlashFilter \<Rightarrow> ComposerProps \<Rightarrow> ComposerState \<Rightarrow> nat \<times> bool" where
  "clampDeps flt p s = (length (activeItems flt p s), isCompletionOpen p s)"

definition resetEffect :: "ComposerState \<Rightarrow> ComposerState" where
  "resetEffect s = s\<lparr>completionIndex := 0\<rparr>"

definition clampEffect :: "SlashFilter \<Rightarrow> ComposerProps \<Rightarrow> ComposerState \<Rightarrow> ComposerState" where
  "clampEffect flt p s =
     (if \<not> isCompletionOpen p s then s
      else s\<lparr>completionIndex :=
               (if length (activeItems flt p s) = 0 then 0
                else min (completionIndex s) (int (length (activeItems flt p s)) - 1))\<rparr>)"

definition runEffects ::
  "SlashFilter \<Rightarrow> ComposerProps \<Rightarrow> ComposerState \<Rightarrow> ComposerProps \<Rightarrow> ComposerState \<Rightarrow> ComposerState" where
  "runEffects flt p0 s0 p s =
     (let s1 = (if resetDeps p0 s0 \<noteq> resetDeps p s then resetEffect s else s);
          s2 = (if clampDeps flt p0 s0 \<noteq> clampDeps flt p s then clampEffect flt p s1 else s1)
      in s2)"

definition step :: "SlashFilter \<Rightarrow> ComposerEvent \<Rightarrow> ComposerProps \<times> ComposerState \<Rightarrow> ComposerProps \<times> ComposerState" where
  "step flt ev c =
     (let p = fst c; s = snd c;
          p' = (case ev of Props q \<Rightarrow> q | _ \<Rightarrow> p);
          s' = handle flt ev p s
      in (p', runEffects flt p s p' s'))"

definition mount :: "SlashFilter \<Rightarrow> ComposerProps \<Rightarrow> ComposerProps \<times> ComposerState" where
  \<comment> \<open>the first render: the initial cells, then every effect runs once\<close>
  "mount flt p =
     (p, clampEffect flt p (resetEffect \<lparr>text_st = [], completionIndex = 0, cursorIndex = 0\<rparr>))"

inductive reachable :: "SlashFilter \<Rightarrow> ComposerProps \<times> ComposerState \<Rightarrow> bool" for flt where
  reachable_mount: "reachable flt (mount flt p)"
| reachable_step: "reachable flt c \<Longrightarrow> reachable flt (step flt ev c)"

definition indexInRange :: "SlashFilter \<Rightarrow> ComposerProps \<times> ComposerState \<Rightarrow> bool" where
  \<comment> \<open>the highlighted index lies in \<open>[0, candidates.length - 1]\<close>, and is 0 for no candidates\<close>
  "indexInRange flt c =
     (let n = int (length (activeItems flt (fst c) (snd c)));
          i = completionIndex (snd c)
      in if n = 0 then i = 0 else 0 \<le> i \<and> i \<le> n - 1)"

datatype TriggerKind = Slash | Mention

definition activeTrigger :: "ComposerProps \<times> ComposerState \<Rightarrow> (TriggerKind \<times> string) option" where
  \<comment> \<open>the kind and the query of the open trigger, if one is open\<close>
  "activeTrigger c =
     (if isSlashOpen (disabled (fst c)) (text_st (snd c))
      then map_option (Pair Slash) (slashQuery (text_st (snd c)))
      else if isAtOpen (fst c) (snd c)
      then map_option (Pair Mention) (atQuery (fst c) (snd c))
      else None)"

section \<open>The debounced file search (the hook \<open>useFileSearch\<close>)\<close>

text \<open>
  The options of the hook. \<open>queryOpt\<close> is the option \<open>query\<close>; \<open>None\<close> stands for
  \<open>null\<close>. \<open>onDebug\<close> is an optional callback: the number is its identity, which
  is all the dependency list of the effect looks at. Every callback writes to the one
  debug log of the model and, being fire-and-forget, does not throw.
\<close>

record UseFileSearchOptions =
  workspaceId :: "string option"
  queryOpt :: "string option"
  limit :: int
  debounceMs :: nat
  enabled :: bool
  onDebug :: "nat option"

datatype DebugPayload =
    SearchPayload string string int
  | CountPayload nat
  | MessagePayload string

text \<open>
  An entry of the debug log. Its \<open>id\<close> is built from the time and a fixed suffix for
  the kind of entry, and is left out.
\<close>

record DebugEntry =
  timestamp :: nat
  source :: string
  label :: string
  payload :: DebugPayload

text \<open>
  What \<open>searchFiles\<close> (an external service) settles with: it rejects with a thrown
  value, an \<open>Error\<close> with a message or any other value (given by its \<open>String\<close>), or
  it resolves with a response, an array (given by the \<open>String\<close> of each element) or
  something else.
\<close>

datatype Thrown = ErrorObject string | OtherThrown string

datatype Response = Array "string list" | NotArray

text \<open>What the timer's callback has captured from the effect that set it.\<close>

record SearchClosure =
  currentId :: int
  closureWorkspaceId :: string
  trimmed :: string
  closureLimit :: int
  closureOnDebug :: "nat option"

record Timeout =
  due :: nat
  callback :: SearchClosure

text \<open>
  The hook's state: the two \<open>useState\<close> cells, the ref \<open>requestId\<close>, the options of
  the last render, the pending timeout (at most one: the cleanup of an effect clears its
  timeout before the next effect sets one), the calls of \<open>searchFiles\<close> that have not
  settled yet, and, for observation, every call made to \<open>searchFiles\<close>, the debug log
  and the clock in milliseconds.
\<close>

record FileSearch =
  items :: "string list"
  isLoading :: bool
  requestId :: int
  options :: UseFileSearchOptions
  timer :: "Timeout option"
  inFlight :: "SearchClosure list"
  searchCalls :: "(string \<times> string \<times> int) list"
  debugLog :: "DebugEntry list"
  now :: nat

definition callOnDebug :: "nat option \<Rightarrow> DebugEntry \<Rightarrow> FileSearch \<Rightarrow> FileSearch" where
  \<comment> \<open>\<open>onDebug?.(entry)\<close>\<close>
  "callOnDebug cb entry st =
     (case cb of None \<Rightarrow> st | Some _ \<Rightarrow> st\<lparr>debugLog := debugLog st @ [entry]\<rparr>)"

definition trimmedQuery :: "string option \<Rightarrow> string" where
  \<comment> \<open>\<open>query?.trim() ?? ""\<close>\<close>
  "trimmedQuery q = (case q of None \<Rightarrow> [] | Some s \<Rightarrow> trim s)"

definition noWorkspace :: "string option \<Rightarrow> bool" where
  \<comment> \<open>\<open>!workspaceId\<close>: \<open>null\<close> and the empty string are falsy\<close>
  "noWorkspace w = (case w of None \<Rightarrow> True | Some s \<Rightarrow> s = [])"

definition effect :: "UseFileSearchOptions \<Rightarrow> FileSearch \<Rightarrow> FileSearch" where
  "effect opts st =
     (if \<not> enabled opts \<or> noWorkspace (workspaceId opts) \<or> length (trimmedQuery (queryOpt opts)) < 1
      then st\<lparr>requestId := requestId st + 1, items := [], isLoading := False\<rparr>
      else
        let cid = requestId st + 1
        in st\<lparr>requestId := cid,
              timer := Some \<lparr>due = now st + debounceMs opts,
                             callback = \<lparr>currentId = cid,
                                         closureWorkspaceId = the (workspaceId opts),
                                         trimmed = trimmedQuery (queryOpt opts),
                                         closureLimit = limit opts,
                                         closureOnDebug = onDebug opts\<rparr>\<rparr>\<rparr>)"

definition cleanup :: "FileSearch \<Rightarrow> FileSearch" where
  \<comment> \<open>\<open>clearTimeout(handle)\<close>\<close>
  "cleanup st = st\<lparr>timer := None\<rparr>"

definition render :: "UseFileSearchOptions \<Rightarrow> FileSearch \<Rightarrow> FileSearch" where
  \<comment> \<open>a render with the given options: when a dependency changed, the cleanup of the
      last effect runs and then the effect\<close>
  "render opts st =
     (if opts = options st then st
      else (effect opts (cleanup st))\<lparr>options := opts\<rparr>)"

definition fire :: "Timeout \<Rightarrow> FileSearch \<Rightarrow> FileSearch" where
  \<comment> \<open>the timer's callback up to the \<open>await\<close>: the request is dispatched\<close>
  "fire tm st =
     (let cl = callback tm;
          st1 = st\<lparr>timer := None, isLoading := True\<rparr>;
          st2 = callOnDebug (closureOnDebug cl)
                  \<lparr>timestamp = due tm, source = ''client'', label = ''file/search'',
                   payload = SearchPayload (closureWorkspaceId cl) (trimmed cl) (closureLimit cl)\<rparr> st1
      in st2\<lparr>searchCalls := searchCalls st2 @ [(closureWorkspaceId cl, trimmed cl, closureLimit cl)],
             inFlight := inFlight st2 @ [cl]\<rparr>)"

definition elapse :: "nat \<Rightarrow> FileSearch \<Rightarrow> FileSearch" where
  \<comment> \<open>\<open>d\<close> milliseconds pass with no render: a timeout that is due by then fires\<close>
  "elapse d st =
     (let st' = (case timer st of
                   None \<Rightarrow> st
                 | Some tm \<Rightarrow> if due tm \<le> now st + d then fire tm st else st)
      in st'\<lparr>now := now st + d\<rparr>)"

text \<open>
  The rest of the callback, run when the call settles. A rejected \<open>await\<close> throws inside
  the \<open>try\<close> block; \<open>Inl\<close> is an exception leaving a block.
\<close>

definition tryBlock :: "SearchClosure \<Rightarrow> Thrown + Response \<Rightarrow> FileSearch \<Rightarrow> Thrown + FileSearch" where
  "tryBlock cl outcome st =
     (case outcome of
        Inl error \<Rightarrow> Inl error
      | Inr response \<Rightarrow>
          if requestId st \<noteq> currentId cl then Inr st
          else
            let normalized = (case response of
                                Array values \<Rightarrow> filter (\<lambda>v. v \<noteq> []) values
                              | NotArray \<Rightarrow> []);
                st1 = st\<lparr>items := normalized\<rparr>
            in Inr (callOnDebug (closureOnDebug cl)
                      \<lparr>timestamp = now st, source = ''server'', label = ''file/search response'',
                       payload = CountPayload (length normalized)\<rparr> st1))"

definition catchBlock :: "SearchClosure \<Rightarrow> Thrown \<Rightarrow> FileSearch \<Rightarrow> Thrown + FileSearch" where
  "catchBlock cl error st =
     (if requestId st \<noteq> currentId cl then Inr st
      else
        let st1 = callOnDebug (closureOnDebug cl)
                    \<lparr>timestamp = now st, source = ''error'', label = ''file/search error'',
                     payload = MessagePayload (case error of ErrorObject message \<Rightarrow> message
                                               | OtherThrown str \<Rightarrow> str)\<rparr> st
        in Inr (st1\<lparr>items := []\<rparr>))"

definition finallyBlock :: "SearchClosure \<Rightarrow> FileSearch \<Rightarrow> FileSearch" where
  "finallyBlock cl st = (if requestId st = currentId cl then st\<lparr>isLoading := False\<rparr> else st)"

definition resume :: "SearchClosure \<Rightarrow> Thrown + Response \<Rightarrow> FileSearch \<Rightarrow> Thrown + FileSearch" where
  \<comment> \<open>\<open>try { ... } catch (error) { ... } finally { ... }\<close>: the \<open>finally\<close> block runs on
      every way out, and an exception of the \<open>catch\<close> block would leave the callback\<close>
  "resume cl outcome st =
     (case tryBlock cl outcome st of
        Inr st1 \<Rightarrow> Inr (finallyBlock cl st1)
      | Inl error \<Rightarrow>
          (case catchBlock cl error st of
             Inr st1 \<Rightarrow> Inr (finallyBlock cl st1)
           | Inl error' \<Rightarrow> Inl error'))"

definition settle :: "int \<Rightarrow> Thrown + Response \<Rightarrow> FileSearch \<Rightarrow> Thrown + FileSearch" where
  \<comment> \<open>the call dispatched for request \<open>cid\<close> settles; nothing happens for a request that
      is not in flight\<close>
  "settle cid outcome st =
     (case find (\<lambda>cl. currentId cl = cid) (inFlight st) of
        None \<Rightarrow> Inr st
      | Some cl \<Rightarrow>
          resume cl outcome (st\<lparr>inFlight := filter (\<lambda>c. currentId c \<noteq> cid) (inFlight st)\<rparr>))"

definition displayed :: "FileSearch \<Rightarrow> string list \<times> bool" where
  \<comment> \<open>what the hook returns to its caller: \<open>{ items, isLoading }\<close>\<close>
  "displayed st = (items st, isLoading st)"

definition mountSearch :: "UseFileSearchOptions \<Rightarrow> FileSearch" where
  \<comment> \<open>the first render: the initial cells, then the effect runs\<close>
  "mountSearch opts =
     effect opts \<lparr>items = [], isLoading = False, requestId = 0, options = opts, timer = None,
                  inFlight = [], searchCalls = [], debugLog = [], now = 0\<rparr>"

fun arrivals :: "FileSearch \<Rightarrow> (nat \<times> string option) list \<Rightarrow> FileSearch" where
  \<comment> \<open>a run of queries: each arrives (a render with that query) the given number of
      milliseconds after the one before\<close>
  "arrivals st [] = st"
| "arrivals st ((gap, q) # rest) =
     arrivals (render ((options st)\<lparr>queryOpt := q\<rparr>) (elapse gap st)) rest"

subsection \<open>Sample props and items of the specification's scenarios\<close>

definition enabledProps :: "SlashItem list \<Rightarrow> SlashItem list \<Rightarrow> ComposerProps" where
  "enabledProps slashes files =
     \<lparr>disabled = False, isSavingAttachments = False, attachments = 0,
      slashItems = slashes, fileItems = files\<rparr>"

definition itemInserting :: "string \<Rightarrow> SlashItem" where
  "itemInserting ins =
     \<lparr>item_id = ins, title = ins, hint = None, description = None, insertText = ins\<rparr>"

subsection \<open>The scenario of two overlapping requests\<close>

definition searchOptions :: "string \<Rightarrow> UseFileSearchOptions" where
  \<comment> \<open>the default limit and delay, a workspace, a debug callback, and the given query\<close>
  "searchOptions q =
     \<lparr>workspaceId = Some ''ws'', queryOpt = Some q, limit = 200, debounceMs = 200,
      enabled = True, onDebug = Some 0\<rparr>"

definition bothInFlight :: FileSearch where
  \<comment> \<open>the request for \<open>ab\<close> is dispatched, then the query becomes \<open>abc\<close> and its
      request is dispatched too, before the first has settled\<close>
  "bothInFlight =
     elapse 200 (render (searchOptions ''abc'') (elapse 200 (mountSearch (searchOptions ''ab''))))"

definition abcApplied :: FileSearch where
  \<comment> \<open>the state of \<open>bothInFlight\<close> once the response for \<open>abc\<close> has been applied\<close>
  "abcApplied =
     (case settle 2 (Inr (Array [''src/abc.ts''])) bothInFlight of
        Inr st \<Rightarrow> st
      | Inl _ \<Rightarrow> bothInFlight)"

subsection \<open>The timeout an effect leaves behind\<close>

definition gatePasses :: "UseFileSearchOptions \<Rightarrow> bool" where
  \<comment> \<open>the negation of the effect's first test\<close>
  "gatePasses opts =
     (enabled opts \<and> \<not> noWorkspace (workspaceId opts) \<and> 1 \<le> length (trimmedQuery (queryOpt opts)))"

definition expectedTimer :: "FileSearch \<Rightarrow> Timeout option" where
  \<comment> \<open>the pending timeout right after the effect has run for the current options:
      none when the gate stops the query, else one for the current request, due after
      the delay\<close>
  "expectedTimer st =
     (if gatePasses (options st)
      then Some \<lparr>due = now st + debounceMs (options st),
                 callback = \<lparr>currentId = requestId st,
                             closureWorkspaceId = the (workspaceId (options st)),
                             trimmed = trimmedQuery (queryOpt (options st)),
                             closureLimit = limit (options st),
                             closureOnDebug = onDebug (options st)\<rparr>\<rparr>
      else None)"

section \<open>Verified properties\<close>

subsection \<open>String primitives\<close>

lemma js_slice_0: "0 \<le> e \<Longrightarrow> js_slice s 0 e = take (nat e) s"
  by (simp add: js_slice_def Let_def min_def) 

lemma js_sliceFrom_nonneg: "0 \<le> b \<Longrightarrow> js_sliceFrom s b = drop (nat b) s"
  by (simp add: js_sliceFrom_def js_slice_def Let_def min_def)

lemma lastIndexOf_snoc:
  "lastIndexOf (xs @ [x]) c = (if x = c then int (length xs) else lastIndexOf xs c)"
  by (induction xs) (auto simp: Let_def)

lemma lastIndexOf_ge: "- 1 \<le> lastIndexOf s c"
  by (induction s) (auto simp: Let_def)

lemma lastIndexOf_lt: "lastIndexOf s c < int (length s)"
  by (induction s) (auto simp: Let_def)

lemma lastIndexIn_Suc:
  "lastIndexIn P a (Suc b) = (if a \<le> b \<and> P b then Some b else lastIndexIn P a b)"
  by (simp add: lastIndexIn_def)

lemma lastIndexOf_segment:
  "a \<le> b \<Longrightarrow> b \<le> length s \<Longrightarrow>
   lastIndexOf (take (b - a) (drop a s)) c =
     (case lastIndexIn (\<lambda>i. s ! i = c) a b of None \<Rightarrow> - 1 | Some i \<Rightarrow> int i - int a)"
proof (induction b)
  case 0
  then show ?case by (simp add: lastIndexIn_def)
next
  case (Suc b)
  show ?case
  proof (cases "a = Suc b")
    case True
    then show ?thesis by (simp add: lastIndexIn_def)
  next
    case False
    with Suc.prems have ab: "a \<le> b" and bl: "b < length s" by simp_all
    have "take (Suc b - a) (drop a s) = take (b - a) (drop a s) @ [s ! b]"
      using ab bl by (simp add: Suc_diff_le take_Suc_conv_app_nth)
    then show ?thesis
      using Suc.IH ab bl by (simp add: lastIndexOf_snoc lastIndexIn_Suc)
  qed
qed


lemma lastIndexIn_SomeD:
  "lastIndexIn P a b = Some i \<Longrightarrow> a \<le> i \<and> i < b \<and> P i"
  by (induction b) (auto simp: lastIndexIn_Suc lastIndexIn_def split: if_splits)

lemma spec_cursor_le: "spec_cursor t c \<le> length t"
  by (simp add: spec_cursor_def)

lemma spec_lineStart_le: "spec_lineStart t c \<le> spec_cursor t c"
  by (auto simp: spec_lineStart_def split: option.splits dest!: lastIndexIn_SomeD)

lemma beforeCursor_eq:
  "0 \<le> c \<Longrightarrow> js_slice t 0 c = take (spec_cursor t c) t"
  by (simp add: js_slice_0 spec_cursor_def min_def)

lemma lineStart_eq:
  "lastIndexOf (take (spec_cursor t c) t) newline + 1 = int (spec_lineStart t c)"
  using lastIndexOf_segment [of 0 "spec_cursor t c" t newline]
  by (simp add: spec_lineStart_def spec_cursor_le split: option.splits)

lemma line_eq:
  "js_sliceFrom (take (spec_cursor t c) t) (int (spec_lineStart t c)) =
     take (spec_cursor t c - spec_lineStart t c) (drop (spec_lineStart t c) t)"
  by (simp add: js_sliceFrom_nonneg drop_take)

lemma atIndex_eq:
  "lastIndexOf (take (spec_cursor t c - spec_lineStart t c)
                  (drop (spec_lineStart t c) t)) CHR ''@'' =
     (case lastIndexIn (\<lambda>i. t ! i = CHR ''@'') (spec_lineStart t c) (spec_cursor t c) of
        None \<Rightarrow> - 1
      | Some i \<Rightarrow> int i - int (spec_lineStart t c))"
  by (rule lastIndexOf_segment [OF spec_lineStart_le spec_cursor_le])

lemma take_drop_map_nth:
  "b \<le> length s \<Longrightarrow> take (b - a) (drop a s) = map ((!) s) [a..<b]"
proof -
  assume b: "b \<le> length s"
  have "map ((!) s) [a..<b] = map ((!) (take b s)) [a..<b]"
    by simp
  also have "\<dots> = drop a (map ((!) (take b s)) [0..<length (take b s)])"
    using b by (simp add: drop_map min_def)
  also have "\<dots> = drop a (take b s)"
    by (simp only: map_nth)
  finally show ?thesis by (simp add: drop_take)
qed

lemma findAtQuery_spec_mention:
  "findAtQuery t c m = spec_mention t c m"
proof (cases "c < 0")
  case True
  then show ?thesis
    by (simp add: findAtQuery_def spec_mention_def spec_cursor_def spec_lineStart_def lastIndexIn_def)
next
  case False
  define n where "n = spec_cursor t c"
  define ls where "ls = spec_lineStart t c"
  define line where "line = take (n - ls) (drop ls t)"
  have nl: "n \<le> length t" and lsn: "ls \<le> n"
    by (simp_all add: n_def ls_def spec_cursor_le spec_lineStart_le)
  have bc: "js_slice t 0 c = take n t"
    using False by (simp add: beforeCursor_eq n_def)
  have ls: "lastIndexOf (take n t) newline + 1 = int ls"
    by (simp add: lineStart_eq n_def ls_def)
  have line: "js_sliceFrom (take n t) (int ls) = line"
    by (simp add: line_eq n_def ls_def line_def)
  have at: "lastIndexOf line CHR ''@'' =
     (case lastIndexIn (\<lambda>i. t ! i = CHR ''@'') ls n of None \<Rightarrow> - 1 | Some i \<Rightarrow> int i - int ls)"
    unfolding n_def ls_def line_def by (rule atIndex_eq)
  have spec: "spec_mention t c m =
     (case lastIndexIn (\<lambda>i. t ! i = CHR ''@'') ls n of
        None \<Rightarrow> None
      | Some a \<Rightarrow>
          if (a = ls \<or> isWhitespace (t ! (a - 1)))
                \<and> CHR '' '' \<notin> set (map ((!) t) [Suc a..<n])
                \<and> m \<le> int (length (map ((!) t) [Suc a..<n]))
          then Some \<lparr>query = map ((!) t) [Suc a..<n], start = int a, endpos = c\<rparr>
          else None)"
    unfolding n_def ls_def spec_mention_def Let_def by (rule refl)
  show ?thesis
  proof (cases "lastIndexIn (\<lambda>i. t ! i = CHR ''@'') ls n")
    case None
    then show ?thesis using False
      by (simp add: findAtQuery_def bc ls line at spec Let_def)
  next
    case (Some a)
    from lastIndexIn_SomeD [OF Some] have a: "ls \<le> a" "a < n" by simp_all
    have at': "lastIndexOf line CHR ''@'' = int a - int ls"
      by (simp add: at Some)
    have after: "js_sliceFrom line (int a - int ls + 1) = map ((!) t) [Suc a..<n]"
    proof -
      have "js_sliceFrom line (int a - int ls + 1) = drop (Suc (a - ls)) line"
        using a by (simp add: js_sliceFrom_nonneg nat_diff_distrib' Suc_nat_eq_nat_zadd1 nat_add_distrib)
      also have "\<dots> = take (n - Suc a) (drop (Suc a) t)"
        using a by (simp add: line_def drop_take)
      also have "\<dots> = map ((!) t) [Suc a..<n]"
        using nl by (rule take_drop_map_nth)
      finally show ?thesis .
    qed
    have prev: "ls < a \<Longrightarrow> charAt line (int a - int ls - 1) = Some (t ! (a - 1))"
      using a nl by (simp add: charAt_def line_def nat_diff_distrib')
    have code: "findAtQuery t c m =
       (if int a - int ls < 0 then None
        else if 0 < int a - int ls \<and>
                (case charAt line (int a - int ls - 1) of
                   None \<Rightarrow> False | Some prevChar \<Rightarrow> \<not> isWhitespace prevChar) then None
        else if js_includes (map ((!) t) [Suc a..<n]) CHR '' '' then None
        else if int (length (map ((!) t) [Suc a..<n])) < m then None
        else Some \<lparr>query = map ((!) t) [Suc a..<n], start = int ls + (int a - int ls), endpos = c\<rparr>)"
      using False by (simp only: findAtQuery_def Let_def bc ls line at' after if_False)
    show ?thesis
    proof (cases "ls < a")
      case True
      then show ?thesis
        unfolding code spec using prev by (simp add: Some js_includes_def)
    next
      case False
      with a have "a = ls" by simp
      then show ?thesis
        unfolding code spec by (simp add: Some js_includes_def)
    qed
  qed
qed

subsection \<open>Slash detection\<close>

lemmas detect_defs =
  atState_def isSlashOpen_def slashQuery_def startsWith_def MIN_AT_QUERY_LENGTH_def
  findAtQuery_def js_slice_def js_sliceFrom_def Let_def newline_def charAt_def
  isWhitespace_def js_includes_def

lemma slashQuery_Some_iff:
  "slashQuery t = Some q \<longleftrightarrow>
     t = CHR ''/'' # q \<and> newline \<notin> set t \<and> CHR '' '' \<notin> set q"
proof (cases t)
  case Nil
  then show ?thesis by (simp add: slashQuery_def startsWith_def)
next
  case (Cons a list)
  have "js_sliceFrom (a # list) 1 = list"
    by (simp add: js_sliceFrom_nonneg)
  then show ?thesis
    unfolding Cons slashQuery_def startsWith_def js_includes_def Let_def
    by (auto simp: newline_def)
qed

text \<open>
  Claim C4. The slash trigger is active exactly when the buffer starts with \<open>/\<close>,
  holds no newline, and has no space after the leading \<open>/\<close>. The query is then
  the buffer without the leading \<open>/\<close>, so that \<open>/\<close> and the query together are the
  whole buffer. A space anywhere after the slash gives no trigger; \<open>/foo\<close> gives the
  query \<open>foo\<close>. (\<open>isSlashOpen\<close> of a composer that is not disabled is this test.)
\<close>

theorem slash_detection:
  "(slashQuery t \<noteq> None \<longleftrightarrow>
      t \<noteq> [] \<and> hd t = CHR ''/'' \<and> newline \<notin> set t \<and> CHR '' '' \<notin> set (tl t))
   \<and> (\<forall>q. slashQuery t = Some q \<longrightarrow> q = tl t \<and> t = ''/'' @ q)
   \<and> (CHR '' '' \<in> set (tl t) \<longrightarrow> slashQuery t = None)
   \<and> (isSlashOpen False t \<longleftrightarrow> slashQuery t \<noteq> None)
   \<and> slashQuery ''/foo bar'' = None
   \<and> slashQuery ''/foo'' = Some ''foo''"
proof -
  have iff: "slashQuery t \<noteq> None \<longleftrightarrow>
      t \<noteq> [] \<and> hd t = CHR ''/'' \<and> newline \<notin> set t \<and> CHR '' '' \<notin> set (tl t)"
    by (cases t) (auto simp: slashQuery_Some_iff)
  have q: "\<forall>q. slashQuery t = Some q \<longrightarrow> q = tl t \<and> t = ''/'' @ q"
    by (auto simp: slashQuery_Some_iff)
  have sp: "CHR '' '' \<in> set (tl t) \<longrightarrow> slashQuery t = None"
    using iff by blast
  have op: "isSlashOpen False t \<longleftrightarrow> slashQuery t \<noteq> None"
    by (simp add: isSlashOpen_def)
  have e1: "slashQuery ''/foo bar'' = None"
    by (simp add: detect_defs)
  have e2: "slashQuery ''/foo'' = Some ''foo''"
    by (simp add: slashQuery_Some_iff newline_def)
  show ?thesis
    by (intro conjI) (fact iff q sp op e1 e2)+
qed

theorem slash_detection_witness:
  "slashQuery ''/review'' = Some ''review'' \<and> ''/review'' = ''/'' @ ''review''
   \<and> CHR '' '' \<in> set (tl ''/a b'') \<and> slashQuery ''/a b'' = None"
proof -
  from slash_detection [of "''/review''"]
  have iff: "slashQuery ''/review'' \<noteq> None \<longleftrightarrow>
      ''/review'' \<noteq> [] \<and> hd ''/review'' = CHR ''/'' \<and> newline \<notin> set ''/review''
      \<and> CHR '' '' \<notin> set (tl ''/review'')"
    and sub: "\<forall>q. slashQuery ''/review'' = Some q \<longrightarrow> q = tl ''/review'' \<and> ''/review'' = ''/'' @ q"
    by (rule conjunct1, rule conjunct2 [THEN conjunct1])
  have "slashQuery ''/review'' \<noteq> None"
    unfolding iff by (simp add: newline_def)
  then obtain q where q: "slashQuery ''/review'' = Some q"
    by blast
  with sub have "q = tl ''/review''"
    by blast
  then have "q = ''review''"
    by simp
  with q have r: "slashQuery ''/review'' = Some ''review''"
    by (simp only:)
  have b: "CHR '' '' \<in> set (tl ''/a b'')"
    by simp
  from slash_detection [of "''/a b''"]
  have "CHR '' '' \<in> set (tl ''/a b'') \<longrightarrow> slashQuery ''/a b'' = None"
    by (rule conjunct2 [THEN conjunct2, THEN conjunct1])
  with b have n: "slashQuery ''/a b'' = None"
    by (rule rev_mp)
  from r b n show ?thesis
    by simp
qed

subsection \<open>Mention detection\<close>

lemma findAtQuery_negative: "c < 0 \<Longrightarrow> findAtQuery t c m = None"
  by (simp add: findAtQuery_def)

lemma findAtQuery_past_end:
  "int (length t) \<le> c \<Longrightarrow>
   findAtQuery t c m = map_option (\<lambda>r. r\<lparr>endpos := c\<rparr>) (findAtQuery t (int (length t)) m)"
  by (simp add: findAtQuery_def js_slice_0 Let_def)

lemma findAtQuery_SomeD:
  assumes "findAtQuery t c m = Some r"
  shows "0 \<le> start r \<and> start r < endpos r \<and> start r < int (length t) \<and> endpos r = c
         \<and> query r = js_slice t (start r + 1) c
         \<and> charAt t (start r) = Some CHR ''@''"
proof -
  from assms have sm: "spec_mention t c m = Some r"
    by (simp add: findAtQuery_spec_mention)
  then obtain a where la: "lastIndexIn (\<lambda>i. t ! i = CHR ''@'') (spec_lineStart t c) (spec_cursor t c) = Some a"
    and r: "r = \<lparr>query = map ((!) t) [Suc a..<spec_cursor t c], start = int a, endpos = c\<rparr>"
    by (auto simp: spec_mention_def Let_def split: option.splits if_splits)
  from lastIndexIn_SomeD [OF la] have a: "a < spec_cursor t c" "t ! a = CHR ''@''" by simp_all
  have n: "spec_cursor t c \<le> length t" "spec_cursor t c \<le> nat c"
    by (simp_all add: spec_cursor_def)
  have c0: "0 \<le> c" using assms by (simp add: findAtQuery_def split: if_splits)
  have "js_slice t (int a + 1) c = take (spec_cursor t c - Suc a) (drop (Suc a) t)"
    using a n c0 by (auto simp: js_slice_def Let_def spec_cursor_def min_def nat_diff_distrib' nat_add_distrib)
  also have "\<dots> = map ((!) t) [Suc a..<spec_cursor t c]"
    using n(1) by (rule take_drop_map_nth)
  finally show ?thesis using a n c0 r by (auto simp: charAt_def)
qed

text \<open>
  Claim C3. Mention detection returns exactly what the specification describes by
  positions (\<open>spec_mention\<close>): with the line start after the last newline before the
  cursor, a trigger is found when the last \<open>@\<close> between the line start and the cursor is
  at the line start or follows a whitespace character, the text after it up to the cursor
  holds no space and is at least the minimum long; the trigger then has that text as
  query, starts at the \<open>@\<close> and ends at the cursor. In every other case the result is
  \<open>null\<close>. With no slash trigger active (and the composer not disabled) \<open>atState\<close> is
  this detection with the minimum 1. The three examples of the specification follow.
\<close>

theorem mention_detection:
  "findAtQuery t c m = spec_mention t c m
   \<and> (\<not> d \<and> slashQuery t = None \<longrightarrow> atState d t c = spec_mention t c 1)
   \<and> atState False ''hello @wor'' 10 = Some \<lparr>query = ''wor'', start = 6, endpos = 10\<rparr>
   \<and> atState False ''hello @wor ld'' 10 = Some \<lparr>query = ''wor'', start = 6, endpos = 10\<rparr>
   \<and> atState False ''hello@wor'' 9 = None"
proof -
  have gen: "\<not> d \<and> slashQuery t = None \<longrightarrow> atState d t c = spec_mention t c 1"
    by (simp add: atState_def isSlashOpen_def MIN_AT_QUERY_LENGTH_def findAtQuery_spec_mention)
  have e1: "atState False ''hello @wor'' 10 = Some \<lparr>query = ''wor'', start = 6, endpos = 10\<rparr>"
    by (simp add: detect_defs)
  have e2: "atState False ''hello @wor ld'' 10 = Some \<lparr>query = ''wor'', start = 6, endpos = 10\<rparr>"
    by (simp add: detect_defs)
  have e3: "atState False ''hello@wor'' 9 = None"
    by (simp add: detect_defs)
  show ?thesis
    by (intro conjI) (fact findAtQuery_spec_mention gen e1 e2 e3)+
qed

theorem mention_detection_witness:
  "slashQuery ''see @src/a'' = None
   \<and> spec_mention ''see @src/a'' 10 1 = Some \<lparr>query = ''src/a'', start = 4, endpos = 10\<rparr>
   \<and> atState False ''see @src/a'' 10 = Some \<lparr>query = ''src/a'', start = 4, endpos = 10\<rparr>"
proof -
  have h: "slashQuery ''see @src/a'' = None"
    by (simp add: detect_defs)
  have f: "findAtQuery ''see @src/a'' 10 1 = Some \<lparr>query = ''src/a'', start = 4, endpos = 10\<rparr>"
    by (simp add: detect_defs)
  from mention_detection [of "''see @src/a''" 10 1 False]
  have g: "findAtQuery ''see @src/a'' 10 1 = spec_mention ''see @src/a'' 10 1"
    and a: "\<not> False \<and> slashQuery ''see @src/a'' = None \<longrightarrow>
            atState False ''see @src/a'' 10 = spec_mention ''see @src/a'' 10 1"
    by (rule conjunct1, rule conjunct2 [THEN conjunct1])
  from a h have "atState False ''see @src/a'' 10 = spec_mention ''see @src/a'' 10 1"
    by (simp only: not_False_eq_True simp_thms)
  with g f h show ?thesis by (simp only: simp_thms)
qed

text \<open>
  Claim C10. For a negative cursor the detection returns \<open>null\<close> whatever the text is.
  The function has a result for every text and cursor: each step it takes is defined on
  all inputs (\<open>slice\<close> clamps its indices, \<open>lastIndexOf\<close> answers -1, an index outside a
  string reads \<open>undefined\<close>) and is modelled so. A cursor past the end of the text gives
  the result of the cursor at the end, with the cursor itself as the trigger's end; and
  every trigger returned starts at an \<open>@\<close> inside the text, before the cursor.
\<close>

theorem findAtQuery_total:
  "(c < 0 \<longrightarrow> findAtQuery t c m = None)
   \<and> (int (length t) \<le> c \<longrightarrow>
        findAtQuery t c m = map_option (\<lambda>r. r\<lparr>endpos := c\<rparr>) (findAtQuery t (int (length t)) m))
   \<and> (\<forall>r. findAtQuery t c m = Some r \<longrightarrow>
        0 \<le> start r \<and> start r < endpos r \<and> start r < int (length t) \<and> endpos r = c
        \<and> query r = js_slice t (start r + 1) c \<and> charAt t (start r) = Some CHR ''@'')"
proof (intro conjI impI allI)
  assume "c < 0"
  then show "findAtQuery t c m = None" by (rule findAtQuery_negative)
next
  assume "int (length t) \<le> c"
  then show "findAtQuery t c m = map_option (\<lambda>r. r\<lparr>endpos := c\<rparr>) (findAtQuery t (int (length t)) m)"
    by (rule findAtQuery_past_end)
next
  fix r assume r: "findAtQuery t c m = Some r"
  from findAtQuery_SomeD [OF r]
  show "0 \<le> start r" "start r < endpos r" "start r < int (length t)" "endpos r = c"
    "query r = js_slice t (start r + 1) c" "charAt t (start r) = Some CHR ''@''"
    by simp_all
qed

theorem findAtQuery_total_witness:
  "(- 3 :: int) < 0 \<and> findAtQuery ''@ab'' (- 3) 1 = None
   \<and> int (length ''@ab'') \<le> 100
   \<and> findAtQuery ''@ab'' 100 1 = Some \<lparr>query = ''ab'', start = 0, endpos = 100\<rparr>
   \<and> charAt ''@ab'' 0 = Some CHR ''@''"
proof -
  have n: "(- 3 :: int) < 0" by simp
  have l: "int (length ''@ab'') \<le> 100" by simp
  have e: "findAtQuery ''@ab'' (int (length ''@ab'')) 1 = Some \<lparr>query = ''ab'', start = 0, endpos = 3\<rparr>"
    by (simp add: detect_defs)
  from findAtQuery_total [of "- 3" "''@ab''" 1] n
  have neg: "findAtQuery ''@ab'' (- 3) 1 = None"
    by (simp only: simp_thms)
  from findAtQuery_total [of 100 "''@ab''" 1] l
  have "findAtQuery ''@ab'' 100 1 =
          map_option (\<lambda>r. r\<lparr>endpos := 100\<rparr>) (findAtQuery ''@ab'' (int (length ''@ab'')) 1)"
    by (simp only: simp_thms)
  then have past: "findAtQuery ''@ab'' 100 1 = Some \<lparr>query = ''ab'', start = 0, endpos = 100\<rparr>"
    by (simp only: e) simp
  have at: "charAt ''@ab'' 0 = Some CHR ''@''"
    by (simp add: charAt_def)
  show ?thesis
    using n l neg past at by (simp only: simp_thms)
qed

subsection \<open>Applying and dismissing a completion\<close>

lemma atState_SomeD:
  "atState d t c = Some st \<Longrightarrow>
     \<not> d \<and> slashQuery t = None \<and> findAtQuery t c 1 = Some st"
  by (auto simp: atState_def isSlashOpen_def MIN_AT_QUERY_LENGTH_def split: if_splits)

lemma span_slices:
  assumes "atStateOf p s = Some st"
  shows "js_slice (text_st s) 0 (start st) = take (nat (start st)) (text_st s)"
    and "js_sliceFrom (text_st s) (endpos st) = drop (nat (endpos st)) (text_st s)"
    and "int (length (take (nat (start st)) (text_st s))) = start st"
proof -
  from assms have f: "findAtQuery (text_st s) (cursorIndex s) 1 = Some st"
    by (simp add: atStateOf_def atState_SomeD)
  from findAtQuery_SomeD [OF f]
  have b: "0 \<le> start st" "start st < endpos st" "start st < int (length (text_st s))"
    by simp_all
  show "js_slice (text_st s) 0 (start st) = take (nat (start st)) (text_st s)"
    using b by (simp add: js_slice_0)
  show "js_sliceFrom (text_st s) (endpos st) = drop (nat (endpos st)) (text_st s)"
    using b by (simp add: js_sliceFrom_nonneg)
  show "int (length (take (nat (start st)) (text_st s))) = start st"
    using b by simp
qed

lemma handleSelectFileItem_span:
  assumes "atStateOf p s = Some st"
  shows "handleSelectFileItem p item s =
     s\<lparr>text_st := take (nat (start st)) (text_st s) @ insertText item
                    @ drop (nat (endpos st)) (text_st s),
       cursorIndex := start st + int (length (insertText item)),
       completionIndex := 0\<rparr>"
  using assms span_slices [OF assms]
  by (simp add: handleSelectFileItem_def applyText_def Let_def)

lemma handleSelectFileItem_fallback:
  "atStateOf p s = None \<Longrightarrow>
   handleSelectFileItem p item s =
     s\<lparr>text_st := insertText item, cursorIndex := int (length (insertText item)),
       completionIndex := 0\<rparr>"
  by (simp add: handleSelectFileItem_def applyText_def)

lemma handleSelectSlashItem_whole:
  "handleSelectSlashItem item s =
     s\<lparr>text_st := insertText item, cursorIndex := int (length (insertText item)),
       completionIndex := 0\<rparr>"
  by (simp add: handleSelectSlashItem_def applyText_def)

lemmas composer_defs =
  atStateOf_def atQuery_def isAtOpen_def isCompletionOpen_def activeItems_def
  filteredSlashItems_def enabledProps_def itemInserting_def

lemma deploy_example:
  "handleSelectFileItem (enabledProps [] [itemInserting ''$deploy ''])
     (itemInserting ''$deploy '')
     \<lparr>text_st = ''hello @wor rest'', completionIndex = 0, cursorIndex = 10\<rparr> =
   \<lparr>text_st = ''hello $deploy  rest'', completionIndex = 0, cursorIndex = 6 + int (length ''$deploy '')\<rparr>"
proof -
  have a: "atStateOf (enabledProps [] [itemInserting ''$deploy ''])
             \<lparr>text_st = ''hello @wor rest'', completionIndex = 0, cursorIndex = 10\<rparr> =
           Some \<lparr>query = ''wor'', start = 6, endpos = 10\<rparr>"
    by (simp add: composer_defs detect_defs)
  show ?thesis
    unfolding handleSelectFileItem_span [OF a] by (simp add: itemInserting_def)
qed

lemma review_example:
  assumes "flt [itemInserting ''/review ''] ''rev'' = [itemInserting ''/review '']"
  shows "onKeyDown flt Enter False (enabledProps [itemInserting ''/review ''] [])
     \<lparr>text_st = ''/rev'', completionIndex = 0, cursorIndex = 4\<rparr> =
   \<lparr>text_st = ''/review '', completionIndex = 0, cursorIndex = int (length ''/review '')\<rparr>"
proof -
  have q: "slashQuery ''/rev'' = Some ''rev''"
    by (simp add: detect_defs)
  show ?thesis
    using assms
    by (simp add: onKeyDown_def isCompletionOpen_def isSlashOpen_def q activeItems_def
        filteredSlashItems_def enabledProps_def js_nth_def handleSelectSlashItem_whole
        itemInserting_def)
qed

text \<open>
  Claim C5. With a mention trigger of span \<open>[start, end)\<close> open, applying a candidate
  gives the buffer \<open>text[0:start] ++ insertText ++ text[end:]\<close> and the cursor
  \<open>start + insertText.length\<close>; with no trigger span known, and for a slash candidate,
  the buffer becomes \<open>insertText\<close> and the cursor its length. Applying \<open>$deploy \<close> to
  the span \<open>[6, 10)\<close> of \<open>hello @wor rest\<close> gives \<open>hello $deploy  rest\<close> with the
  cursor at \<open>6 + 8\<close>; confirming the candidate \<open>/review \<close> on the buffer \<open>/rev\<close>
  (the filter returning that candidate for the query \<open>rev\<close>) gives \<open>/review \<close> with
  the cursor at its end.
\<close>

theorem apply_candidate:
  "(\<forall>st. atStateOf p s = Some st \<longrightarrow>
      handleSelectFileItem p item s =
        s\<lparr>text_st := take (nat (start st)) (text_st s) @ insertText item
                       @ drop (nat (endpos st)) (text_st s),
          cursorIndex := start st + int (length (insertText item)),
          completionIndex := 0\<rparr>)
   \<and> (atStateOf p s = None \<longrightarrow>
      handleSelectFileItem p item s =
        s\<lparr>text_st := insertText item, cursorIndex := int (length (insertText item)),
          completionIndex := 0\<rparr>)
   \<and> handleSelectSlashItem item s =
        s\<lparr>text_st := insertText item, cursorIndex := int (length (insertText item)),
          completionIndex := 0\<rparr>
   \<and> handleSelectFileItem (enabledProps [] [itemInserting ''$deploy ''])
        (itemInserting ''$deploy '')
        \<lparr>text_st = ''hello @wor rest'', completionIndex = 0, cursorIndex = 10\<rparr> =
      \<lparr>text_st = ''hello $deploy  rest'', completionIndex = 0,
       cursorIndex = 6 + int (length ''$deploy '')\<rparr>
   \<and> (flt [itemInserting ''/review ''] ''rev'' = [itemInserting ''/review ''] \<longrightarrow>
      onKeyDown flt Enter False (enabledProps [itemInserting ''/review ''] [])
        \<lparr>text_st = ''/rev'', completionIndex = 0, cursorIndex = 4\<rparr> =
      \<lparr>text_st = ''/review '', completionIndex = 0, cursorIndex = int (length ''/review '')\<rparr>)"
proof (intro conjI allI impI)
  fix st assume "atStateOf p s = Some st"
  then show "handleSelectFileItem p item s =
        s\<lparr>text_st := take (nat (start st)) (text_st s) @ insertText item
                       @ drop (nat (endpos st)) (text_st s),
          cursorIndex := start st + int (length (insertText item)),
          completionIndex := 0\<rparr>"
    by (rule handleSelectFileItem_span)
next
  assume "atStateOf p s = None"
  then show "handleSelectFileItem p item s =
        s\<lparr>text_st := insertText item, cursorIndex := int (length (insertText item)),
          completionIndex := 0\<rparr>"
    by (rule handleSelectFileItem_fallback)
next
  show "handleSelectSlashItem item s =
        s\<lparr>text_st := insertText item, cursorIndex := int (length (insertText item)),
          completionIndex := 0\<rparr>"
    by (rule handleSelectSlashItem_whole)
next
  show "handleSelectFileItem (enabledProps [] [itemInserting ''$deploy ''])
        (itemInserting ''$deploy '')
        \<lparr>text_st = ''hello @wor rest'', completionIndex = 0, cursorIndex = 10\<rparr> =
      \<lparr>text_st = ''hello $deploy  rest'', completionIndex = 0,
       cursorIndex = 6 + int (length ''$deploy '')\<rparr>"
    by (rule deploy_example)
next
  assume "flt [itemInserting ''/review ''] ''rev'' = [itemInserting ''/review '']"
  then show "onKeyDown flt Enter False (enabledProps [itemInserting ''/review ''] [])
        \<lparr>text_st = ''/rev'', completionIndex = 0, cursorIndex = 4\<rparr> =
      \<lparr>text_st = ''/review '', completionIndex = 0, cursorIndex = int (length ''/review '')\<rparr>"
    by (rule review_example)
qed

theorem apply_candidate_witness:
  "atStateOf (enabledProps [] [itemInserting ''src/bug.ts ''])
     \<lparr>text_st = ''fix @bu now'', completionIndex = 0, cursorIndex = 7\<rparr> =
     Some \<lparr>query = ''bu'', start = 4, endpos = 7\<rparr>
   \<and> handleSelectFileItem (enabledProps [] [itemInserting ''src/bug.ts ''])
       (itemInserting ''src/bug.ts '')
       \<lparr>text_st = ''fix @bu now'', completionIndex = 0, cursorIndex = 7\<rparr> =
     \<lparr>text_st = ''fix src/bug.ts  now'', completionIndex = 0, cursorIndex = 15\<rparr>
   \<and> atStateOf (enabledProps [] [itemInserting ''src/bug.ts ''])
       \<lparr>text_st = ''fix'', completionIndex = 0, cursorIndex = 3\<rparr> = None
   \<and> handleSelectFileItem (enabledProps [] [itemInserting ''src/bug.ts ''])
       (itemInserting ''src/bug.ts '')
       \<lparr>text_st = ''fix'', completionIndex = 0, cursorIndex = 3\<rparr> =
     \<lparr>text_st = ''src/bug.ts '', completionIndex = 0, cursorIndex = 11\<rparr>
   \<and> (\<lambda>items q. items) [itemInserting ''/review ''] ''rev'' = [itemInserting ''/review '']
   \<and> onKeyDown (\<lambda>items q. items) Enter False (enabledProps [itemInserting ''/review ''] [])
       \<lparr>text_st = ''/rev'', completionIndex = 0, cursorIndex = 4\<rparr> =
     \<lparr>text_st = ''/review '', completionIndex = 0, cursorIndex = 8\<rparr>"
proof -
  let ?p = "enabledProps [] [itemInserting ''src/bug.ts '']"
  let ?s = "\<lparr>text_st = ''fix @bu now'', completionIndex = 0, cursorIndex = 7\<rparr>"
  let ?sn = "\<lparr>text_st = ''fix'', completionIndex = 0, cursorIndex = 3\<rparr>"
  let ?i = "itemInserting ''src/bug.ts ''"
  let ?flt = "\<lambda>(items :: SlashItem list) (q :: string). items"
  have a: "atStateOf ?p ?s = Some \<lparr>query = ''bu'', start = 4, endpos = 7\<rparr>"
    by (simp add: composer_defs detect_defs)
  have n: "atStateOf ?p ?sn = None"
    by (simp add: composer_defs detect_defs)
  have f: "?flt [itemInserting ''/review ''] ''rev'' = [itemInserting ''/review '']"
    by simp
  note inst = apply_candidate [where p = ?p and item = ?i and flt = ?flt]
  from inst [where s = ?s] a
  have r1: "handleSelectFileItem ?p ?i ?s =
      \<lparr>text_st = ''fix src/bug.ts  now'', completionIndex = 0, cursorIndex = 15\<rparr>"
    by (simp add: itemInserting_def)
  from inst [where s = ?sn] n
  have r2: "handleSelectFileItem ?p ?i ?sn =
      \<lparr>text_st = ''src/bug.ts '', completionIndex = 0, cursorIndex = 11\<rparr>"
    by (simp add: itemInserting_def)
  from inst [where s = ?s] f
  have r3: "onKeyDown ?flt Enter False (enabledProps [itemInserting ''/review ''] [])
       \<lparr>text_st = ''/rev'', completionIndex = 0, cursorIndex = 4\<rparr> =
     \<lparr>text_st = ''/review '', completionIndex = 0, cursorIndex = 8\<rparr>"
    by simp
  from a r1 n r2 f r3 show ?thesis
    by (simp only: simp_thms)
qed

lemma isSlashOpen_open: "isSlashOpen (disabled p) (text_st s) \<Longrightarrow> isCompletionOpen p s \<and> \<not> disabled p"
  by (simp add: isCompletionOpen_def isSlashOpen_def)

lemma isAtOpen_open:
  "isAtOpen p s \<Longrightarrow> isCompletionOpen p s \<and> \<not> disabled p \<and> \<not> isSlashOpen (disabled p) (text_st s)"
  by (auto simp: isCompletionOpen_def isAtOpen_def)

lemma escape_slash:
  assumes "isSlashOpen (disabled p) (text_st s)"
  shows "onKeyDown flt Escape m p s = s\<lparr>text_st := [], cursorIndex := 0, completionIndex := 0\<rparr>"
proof -
  from isSlashOpen_open [OF assms]
  have o: "isCompletionOpen p s" and d: "\<not> disabled p"
    by simp_all
  have "onKeyDown flt Escape m p s = applyText [] (Some 0) s"
    unfolding onKeyDown_def using o d assms by (simp only: if_True if_False Key.simps Let_def simp_thms)
  then show ?thesis
    by (simp add: applyText_def)
qed

lemma escape_mention:
  assumes "isAtOpen p s" and "atStateOf p s = Some st"
  shows "onKeyDown flt Escape m p s =
     s\<lparr>text_st := take (nat (start st)) (text_st s) @ drop (nat (endpos st)) (text_st s),
       cursorIndex := start st, completionIndex := 0\<rparr>"
proof -
  from isAtOpen_open [OF assms(1)]
  have o: "isCompletionOpen p s" and d: "\<not> disabled p"
    and n: "\<not> isSlashOpen (disabled p) (text_st s)"
    by blast+
  have "onKeyDown flt Escape m p s = clearAtQuery p s"
    unfolding onKeyDown_def using o d n by (simp only: if_True if_False Key.simps Let_def simp_thms)
  then show ?thesis
    using assms(2) span_slices [OF assms(2)]
    by (simp add: clearAtQuery_def applyText_def Let_def)
qed

lemma escape_example:
  "onKeyDown flt Escape False (enabledProps [] [])
     \<lparr>text_st = ''fix @bu'', completionIndex = 0, cursorIndex = 7\<rparr> =
   \<lparr>text_st = ''fix '', completionIndex = 0, cursorIndex = 4\<rparr>"
proof -
  let ?p = "enabledProps [] []"
  let ?s = "\<lparr>text_st = ''fix @bu'', completionIndex = 0, cursorIndex = 7\<rparr>"
  have a: "atStateOf ?p ?s = Some \<lparr>query = ''bu'', start = 4, endpos = 7\<rparr>"
    by (simp add: composer_defs detect_defs)
  have "isAtOpen ?p ?s"
    unfolding isAtOpen_def atQuery_def a by (simp add: enabledProps_def detect_defs)
  from escape_mention [OF this a] show ?thesis
    by simp
qed

text \<open>
  Claim C6. With a slash trigger open, Escape clears the whole buffer and puts the cursor
  at 0. With a mention trigger of span \<open>[start, end)\<close> open, Escape removes exactly that
  span, keeps the text before and after it, and puts the cursor at \<open>start\<close>. On
  \<open>fix @bu\<close> (cursor at the end) it leaves \<open>fix \<close> with the cursor at 4.
\<close>

theorem dismiss_trigger:
  "(isSlashOpen (disabled p) (text_st s) \<longrightarrow>
      onKeyDown flt Escape m p s = s\<lparr>text_st := [], cursorIndex := 0, completionIndex := 0\<rparr>)
   \<and> (\<forall>st. isAtOpen p s \<and> atStateOf p s = Some st \<longrightarrow>
      onKeyDown flt Escape m p s =
        s\<lparr>text_st := take (nat (start st)) (text_st s) @ drop (nat (endpos st)) (text_st s),
          cursorIndex := start st, completionIndex := 0\<rparr>)
   \<and> onKeyDown flt Escape False (enabledProps [] [])
        \<lparr>text_st = ''fix @bu'', completionIndex = 0, cursorIndex = 7\<rparr> =
      \<lparr>text_st = ''fix '', completionIndex = 0, cursorIndex = 4\<rparr>"
proof (intro conjI allI impI)
  assume "isSlashOpen (disabled p) (text_st s)"
  then show "onKeyDown flt Escape m p s = s\<lparr>text_st := [], cursorIndex := 0, completionIndex := 0\<rparr>"
    by (rule escape_slash)
next
  fix st assume "isAtOpen p s \<and> atStateOf p s = Some st"
  then show "onKeyDown flt Escape m p s =
        s\<lparr>text_st := take (nat (start st)) (text_st s) @ drop (nat (endpos st)) (text_st s),
          cursorIndex := start st, completionIndex := 0\<rparr>"
    by (simp add: escape_mention)
next
  show "onKeyDown flt Escape False (enabledProps [] [])
        \<lparr>text_st = ''fix @bu'', completionIndex = 0, cursorIndex = 7\<rparr> =
      \<lparr>text_st = ''fix '', completionIndex = 0, cursorIndex = 4\<rparr>"
    by (rule escape_example)
qed

theorem dismiss_trigger_witness:
  "isSlashOpen (disabled (enabledProps [] [])) (text_st \<lparr>text_st = ''/rev'', completionIndex = 1, cursorIndex = 4\<rparr>)
   \<and> onKeyDown (\<lambda>items q. items) Escape False (enabledProps [] [])
        \<lparr>text_st = ''/rev'', completionIndex = 1, cursorIndex = 4\<rparr> =
      \<lparr>text_st = [], completionIndex = 0, cursorIndex = 0\<rparr>
   \<and> isAtOpen (enabledProps [] []) \<lparr>text_st = ''see @a.ts ok'', completionIndex = 0, cursorIndex = 9\<rparr>
   \<and> atStateOf (enabledProps [] []) \<lparr>text_st = ''see @a.ts ok'', completionIndex = 0, cursorIndex = 9\<rparr> =
        Some \<lparr>query = ''a.ts'', start = 4, endpos = 9\<rparr>
   \<and> onKeyDown (\<lambda>items q. items) Escape False (enabledProps [] [])
        \<lparr>text_st = ''see @a.ts ok'', completionIndex = 0, cursorIndex = 9\<rparr> =
      \<lparr>text_st = ''see  ok'', completionIndex = 0, cursorIndex = 4\<rparr>"
proof -
  let ?p = "enabledProps [] []"
  let ?sa = "\<lparr>text_st = ''/rev'', completionIndex = 1, cursorIndex = 4\<rparr>"
  let ?sb = "\<lparr>text_st = ''see @a.ts ok'', completionIndex = 0, cursorIndex = 9\<rparr>"
  let ?flt = "\<lambda>(items :: SlashItem list) (q :: string). items"
  note inst = dismiss_trigger [where p = ?p and flt = ?flt and m = False]
  have o1: "isSlashOpen (disabled ?p) (text_st ?sa)"
    by (simp add: enabledProps_def detect_defs)
  from inst [where s = ?sa] o1
  have r1: "onKeyDown ?flt Escape False ?p ?sa = \<lparr>text_st = [], completionIndex = 0, cursorIndex = 0\<rparr>"
    by simp
  have a: "atStateOf ?p ?sb = Some \<lparr>query = ''a.ts'', start = 4, endpos = 9\<rparr>"
    by (simp add: composer_defs detect_defs)
  have o2: "isAtOpen ?p ?sb"
    unfolding isAtOpen_def atQuery_def a by (simp add: enabledProps_def detect_defs)
  from inst [where s = ?sb] o2 a
  have r2: "onKeyDown ?flt Escape False ?p ?sb =
      \<lparr>text_st = ''see  ok'', completionIndex = 0, cursorIndex = 4\<rparr>"
    by simp
  from o1 r1 o2 a r2 show ?thesis
    by (simp only: simp_thms)
qed

subsection \<open>The highlighted index\<close>

lemma js_rem_mod: "0 \<le> a \<Longrightarrow> 0 < b \<Longrightarrow> js_rem a b = a mod b"
  by (cases "a = 0") (simp_all add: js_rem_def)

lemma derived_index_update [simp]:
  "atStateOf p (s\<lparr>completionIndex := k\<rparr>) = atStateOf p s"
  "atQuery p (s\<lparr>completionIndex := k\<rparr>) = atQuery p s"
  "isAtOpen p (s\<lparr>completionIndex := k\<rparr>) = isAtOpen p s"
  "isCompletionOpen p (s\<lparr>completionIndex := k\<rparr>) = isCompletionOpen p s"
  "filteredSlashItems flt p (s\<lparr>completionIndex := k\<rparr>) = filteredSlashItems flt p s"
  "activeItems flt p (s\<lparr>completionIndex := k\<rparr>) = activeItems flt p s"
  "resetDeps p (s\<lparr>completionIndex := k\<rparr>) = resetDeps p s"
  "clampDeps flt p (s\<lparr>completionIndex := k\<rparr>) = clampDeps flt p s"
  by (simp_all add: atStateOf_def atQuery_def isAtOpen_def isCompletionOpen_def
      filteredSlashItems_def activeItems_def resetDeps_def clampDeps_def
      split: option.splits)

lemma runEffects_same_deps:
  "resetDeps p s' = resetDeps p s \<Longrightarrow> clampDeps flt p s' = clampDeps flt p s \<Longrightarrow>
   runEffects flt p s p s' = s'"
  by (simp add: runEffects_def)

lemma step_index_only:
  "handle flt ev p s = s\<lparr>completionIndex := k\<rparr> \<Longrightarrow> (\<And>q. ev \<noteq> Props q) \<Longrightarrow>
   step flt ev (p, s) = (p, s\<lparr>completionIndex := k\<rparr>)"
  by (cases ev) (auto simp: step_def runEffects_same_deps)

lemma arrow_down:
  assumes "\<not> disabled p" "isCompletionOpen p s" "0 \<le> completionIndex s"
    and "0 < length (activeItems flt p s)"
  shows "step flt (KeyDown ArrowDown m) (p, s) =
     (p, s\<lparr>completionIndex := (completionIndex s + 1) mod int (length (activeItems flt p s))\<rparr>)"
proof (rule step_index_only)
  show "handle flt (KeyDown ArrowDown m) p s =
     s\<lparr>completionIndex := (completionIndex s + 1) mod int (length (activeItems flt p s))\<rparr>"
    using assms by (simp add: handle_def onKeyDown_def Let_def js_rem_mod)
qed simp

lemma arrow_up:
  assumes "\<not> disabled p" "isCompletionOpen p s" "0 \<le> completionIndex s"
    and "0 < length (activeItems flt p s)"
  shows "step flt (KeyDown ArrowUp m) (p, s) =
     (p, s\<lparr>completionIndex :=
              (completionIndex s - 1 + int (length (activeItems flt p s)))
                mod int (length (activeItems flt p s))\<rparr>)"
proof (rule step_index_only)
  show "handle flt (KeyDown ArrowUp m) p s =
     s\<lparr>completionIndex :=
              (completionIndex s - 1 + int (length (activeItems flt p s)))
                mod int (length (activeItems flt p s))\<rparr>"
  proof -
    have "js_rem (completionIndex s - 1 + int (length (activeItems flt p s)))
            (int (length (activeItems flt p s))) =
          (completionIndex s - 1 + int (length (activeItems flt p s)))
            mod int (length (activeItems flt p s))"
    proof (rule js_rem_mod)
      from assms(4) have "1 \<le> int (length (activeItems flt p s))" by linarith
      with assms(3) show "0 \<le> completionIndex s - 1 + int (length (activeItems flt p s))"
        by linarith
      from assms(4) show "0 < int (length (activeItems flt p s))" by simp
    qed
    then show ?thesis
      using assms by (simp add: handle_def onKeyDown_def Let_def)
  qed
qed simp

lemma arrow_empty:
  assumes "activeItems flt p s = []" and "key = ArrowDown \<or> key = ArrowUp"
  shows "step flt (KeyDown key m) (p, s) = (p, s)"
proof -
  have "handle flt (KeyDown key m) p s = s"
    using assms by (auto simp: handle_def onKeyDown_def Let_def)
  then show ?thesis
    by (simp add: step_def runEffects_same_deps)
qed

text \<open>
  Claim C9. With the menu open on \<open>n > 0\<close> candidates and the highlighted index
  \<open>i \<ge> 0\<close>, ArrowDown sets the index to \<open>(i + 1) mod n\<close> and ArrowUp to
  \<open>(i - 1 + n) mod n\<close>, and nothing else changes; with no candidate both keys change
  nothing. With three candidates, next from 2 is 0 and previous from 0 is 2.
\<close>

theorem highlight_wraps:
  "(\<not> disabled p \<and> isCompletionOpen p s \<and> 0 \<le> completionIndex s
      \<and> 0 < length (activeItems flt p s) \<longrightarrow>
      step flt (KeyDown ArrowDown m) (p, s) =
        (p, s\<lparr>completionIndex :=
                 (completionIndex s + 1) mod int (length (activeItems flt p s))\<rparr>)
      \<and> step flt (KeyDown ArrowUp m) (p, s) =
        (p, s\<lparr>completionIndex :=
                 (completionIndex s - 1 + int (length (activeItems flt p s)))
                   mod int (length (activeItems flt p s))\<rparr>))
   \<and> (activeItems flt p s = [] \<longrightarrow>
      step flt (KeyDown ArrowDown m) (p, s) = (p, s)
      \<and> step flt (KeyDown ArrowUp m) (p, s) = (p, s))
   \<and> (length (activeItems flt p s) = 3 \<and> \<not> disabled p \<and> isCompletionOpen p s \<longrightarrow>
      (completionIndex s = 2 \<longrightarrow>
         completionIndex (snd (step flt (KeyDown ArrowDown m) (p, s))) = 0)
      \<and> (completionIndex s = 0 \<longrightarrow>
         completionIndex (snd (step flt (KeyDown ArrowUp m) (p, s))) = 2))"
proof (intro conjI impI)
  assume a: "\<not> disabled p \<and> isCompletionOpen p s \<and> 0 \<le> completionIndex s
      \<and> 0 < length (activeItems flt p s)"
  then show "step flt (KeyDown ArrowDown m) (p, s) =
        (p, s\<lparr>completionIndex :=
                 (completionIndex s + 1) mod int (length (activeItems flt p s))\<rparr>)"
    by (simp add: arrow_down)
  from a show "step flt (KeyDown ArrowUp m) (p, s) =
        (p, s\<lparr>completionIndex :=
                 (completionIndex s - 1 + int (length (activeItems flt p s)))
                   mod int (length (activeItems flt p s))\<rparr>)"
    by (simp add: arrow_up)
next
  assume "activeItems flt p s = []"
  then show "step flt (KeyDown ArrowDown m) (p, s) = (p, s)"
    and "step flt (KeyDown ArrowUp m) (p, s) = (p, s)"
    by (simp_all add: arrow_empty)
next
  assume a: "length (activeItems flt p s) = 3 \<and> \<not> disabled p \<and> isCompletionOpen p s"
    and i: "completionIndex s = 2"
  then show "completionIndex (snd (step flt (KeyDown ArrowDown m) (p, s))) = 0"
    by (simp add: arrow_down)
next
  assume a: "length (activeItems flt p s) = 3 \<and> \<not> disabled p \<and> isCompletionOpen p s"
    and i: "completionIndex s = 0"
  then show "completionIndex (snd (step flt (KeyDown ArrowUp m) (p, s))) = 2"
    by (simp add: arrow_up)
qed

lemmas step_defs =
  step_def handle_def onKeyDown_def runEffects_def resetEffect_def clampEffect_def
  resetDeps_def clampDeps_def applyText_def js_rem_def js_nth_def

theorem highlight_wraps_witness:
  "\<not> disabled (enabledProps [] [itemInserting ''a'', itemInserting ''b'', itemInserting ''c''])
   \<and> isCompletionOpen (enabledProps [] [itemInserting ''a'', itemInserting ''b'', itemInserting ''c''])
        \<lparr>text_st = ''@x'', completionIndex = 2, cursorIndex = 2\<rparr>
   \<and> length (activeItems (\<lambda>items q. items)
        (enabledProps [] [itemInserting ''a'', itemInserting ''b'', itemInserting ''c''])
        \<lparr>text_st = ''@x'', completionIndex = 2, cursorIndex = 2\<rparr>) = 3
   \<and> step (\<lambda>items q. items) (KeyDown ArrowDown False)
        (enabledProps [] [itemInserting ''a'', itemInserting ''b'', itemInserting ''c''],
         \<lparr>text_st = ''@x'', completionIndex = 2, cursorIndex = 2\<rparr>) =
       (enabledProps [] [itemInserting ''a'', itemInserting ''b'', itemInserting ''c''],
         \<lparr>text_st = ''@x'', completionIndex = 0, cursorIndex = 2\<rparr>)
   \<and> step (\<lambda>items q. items) (KeyDown ArrowUp False)
        (enabledProps [] [itemInserting ''a'', itemInserting ''b'', itemInserting ''c''],
         \<lparr>text_st = ''@x'', completionIndex = 2, cursorIndex = 2\<rparr>) =
       (enabledProps [] [itemInserting ''a'', itemInserting ''b'', itemInserting ''c''],
         \<lparr>text_st = ''@x'', completionIndex = 1, cursorIndex = 2\<rparr>)
   \<and> activeItems (\<lambda>items q. items) (enabledProps [] [])
        \<lparr>text_st = ''@x'', completionIndex = 0, cursorIndex = 2\<rparr> = []
   \<and> step (\<lambda>items q. items) (KeyDown ArrowDown False)
        (enabledProps [] [], \<lparr>text_st = ''@x'', completionIndex = 0, cursorIndex = 2\<rparr>) =
       (enabledProps [] [], \<lparr>text_st = ''@x'', completionIndex = 0, cursorIndex = 2\<rparr>)"
proof -
  let ?p = "enabledProps [] [itemInserting ''a'', itemInserting ''b'', itemInserting ''c'']"
  let ?s = "\<lparr>text_st = ''@x'', completionIndex = 2, cursorIndex = 2\<rparr>"
  let ?pe = "enabledProps [] []"
  let ?se = "\<lparr>text_st = ''@x'', completionIndex = 0, cursorIndex = 2\<rparr>"
  let ?flt = "\<lambda>(items :: SlashItem list) (q :: string). items"
  have d: "\<not> disabled ?p"
    by (simp add: enabledProps_def)
  have o: "isCompletionOpen ?p ?s"
    by (simp add: composer_defs detect_defs)
  have n: "length (activeItems ?flt ?p ?s) = 3"
    by (simp add: composer_defs detect_defs)
  have e: "activeItems ?flt ?pe ?se = []"
    by (simp add: composer_defs detect_defs)
  note inst = highlight_wraps [where flt = ?flt and m = False]
  from inst [where p = ?p and s = ?s] d o n
  have down: "step ?flt (KeyDown ArrowDown False) (?p, ?s) =
      (?p, \<lparr>text_st = ''@x'', completionIndex = 0, cursorIndex = 2\<rparr>)"
    and up: "step ?flt (KeyDown ArrowUp False) (?p, ?s) =
      (?p, \<lparr>text_st = ''@x'', completionIndex = 1, cursorIndex = 2\<rparr>)"
    by simp_all
  from inst [where p = ?pe and s = ?se] e
  have none: "step ?flt (KeyDown ArrowDown False) (?pe, ?se) = (?pe, ?se)"
    by simp
  from d o n down up e none show ?thesis
    by (simp only: simp_thms)
qed

lemma indexInRange_alt:
  "indexInRange flt (p, s) \<longleftrightarrow>
     completionIndex s = 0
     \<or> (0 \<le> completionIndex s \<and> completionIndex s \<le> int (length (activeItems flt p s)) - 1)"
  by (auto simp: indexInRange_def Let_def)

lemma closed_no_items: "\<not> isCompletionOpen p s \<Longrightarrow> activeItems flt p s = []"
  by (simp add: isCompletionOpen_def activeItems_def)

lemma runEffects_index:
  "runEffects flt p0 s0 p s = s\<lparr>completionIndex := completionIndex (runEffects flt p0 s0 p s)\<rparr>"
  by (simp add: runEffects_def resetEffect_def clampEffect_def Let_def)

lemma runEffects_activeItems:
  "activeItems flt p (runEffects flt p0 s0 p s) = activeItems flt p s"
  by (subst runEffects_index) (simp only: derived_index_update)

lemma runEffects_reset:
  assumes "resetDeps p0 s0 \<noteq> resetDeps p s"
  shows "completionIndex (runEffects flt p0 s0 p s) = 0"
  using assms by (simp add: runEffects_def resetEffect_def clampEffect_def Let_def)

lemma runEffects_range:
  assumes w: "completionIndex s = 0
       \<or> (0 \<le> completionIndex s \<and> completionIndex s \<le> int (length (activeItems flt p0 s0)) - 1)"
  shows "indexInRange flt (p, runEffects flt p0 s0 p s)"
proof (cases "resetDeps p0 s0 = resetDeps p s")
  case False
  then show ?thesis
    by (simp add: indexInRange_alt runEffects_reset)
next
  case same: True
  then have op: "isCompletionOpen p0 s0 = isCompletionOpen p s"
    by (simp add: resetDeps_def)
  show ?thesis
  proof (cases "clampDeps flt p0 s0 = clampDeps flt p s")
    case True
    then have "length (activeItems flt p0 s0) = length (activeItems flt p s)"
      by (simp add: clampDeps_def)
    moreover have "runEffects flt p0 s0 p s = s"
      using same True by (simp add: runEffects_def)
    ultimately show ?thesis
      using w by (simp add: indexInRange_alt)
  next
    case False
    have "isCompletionOpen p s"
    proof (rule ccontr)
      assume c: "\<not> isCompletionOpen p s"
      with op have "\<not> isCompletionOpen p0 s0" by simp
      with c have "clampDeps flt p0 s0 = clampDeps flt p s"
        by (simp add: clampDeps_def closed_no_items)
      with False show False by simp
    qed
    moreover from w have "0 \<le> completionIndex s" by auto
    ultimately show ?thesis
      using same False
      by (auto simp: indexInRange_alt runEffects_def clampEffect_def Let_def)
  qed
qed

lemma handle_index:
  assumes "indexInRange flt (p, s)"
  shows "completionIndex (handle flt ev p s) = 0
     \<or> (0 \<le> completionIndex (handle flt ev p s)
        \<and> completionIndex (handle flt ev p s) \<le> int (length (activeItems flt p s)) - 1)"
proof -
  from assms have w: "completionIndex s = 0
     \<or> (0 \<le> completionIndex s \<and> completionIndex s \<le> int (length (activeItems flt p s)) - 1)"
    by (simp add: indexInRange_alt)
  show ?thesis
  proof (cases ev)
    case (KeyDown key m)
    have nonneg: "0 \<le> completionIndex s" using w by auto
    show ?thesis
    proof (cases key)
      case ArrowDown
      show ?thesis
        using w nonneg unfolding KeyDown ArrowDown
        by (auto simp: handle_def onKeyDown_def handleSend_def Let_def js_rem_mod)
    next
      case ArrowUp
      have "0 < length (activeItems flt p s) \<Longrightarrow>
          js_rem (completionIndex s - 1 + int (length (activeItems flt p s)))
            (int (length (activeItems flt p s))) =
          (completionIndex s - 1 + int (length (activeItems flt p s)))
            mod int (length (activeItems flt p s))"
        using nonneg by (intro js_rem_mod) linarith+
      then show ?thesis
        using w unfolding KeyDown ArrowUp
        by (auto simp: handle_def onKeyDown_def handleSend_def Let_def)
    next
      case Enter
      show ?thesis
        using w unfolding KeyDown Enter
        by (auto simp: handle_def onKeyDown_def handleSend_def Let_def applyText_def
            handleSelectSlashItem_def handleSelectFileItem_def split: option.splits)
    next
      case Escape
      show ?thesis
        using w unfolding KeyDown Escape
        by (auto simp: handle_def onKeyDown_def handleSend_def Let_def applyText_def
            clearAtQuery_def split: option.splits)
    next
      case OtherKey
      show ?thesis
        using w unfolding KeyDown OtherKey
        by (auto simp: handle_def onKeyDown_def handleSend_def Let_def)
    qed
  next
    case (MenuSelect item)
    show ?thesis
      using w unfolding MenuSelect
      by (auto simp: handle_def applyText_def Let_def
          handleSelectSlashItem_def handleSelectFileItem_def split: option.splits)
  next
    case (SelectSkill name)
    show ?thesis
      unfolding SelectSkill
      by (simp add: handle_def handleSelectSkill_def applyText_def Let_def)
  qed (use w in \<open>auto simp: handle_def\<close>)
qed

lemma step_range:
  assumes "indexInRange flt c"
  shows "indexInRange flt (step flt ev c)"
proof -
  obtain p s where c: "c = (p, s)" by (cases c)
  from assms have "indexInRange flt (p, s)" by (simp add: c)
  from runEffects_range [OF handle_index [OF this]] show ?thesis
    by (simp add: step_def Let_def c)
qed

lemma mount_range: "indexInRange flt (mount flt p)"
proof -
  have "findAtQuery [] 0 1 = None"
    by (simp add: detect_defs)
  then have "\<not> isCompletionOpen p \<lparr>text_st = [], completionIndex = 0, cursorIndex = 0\<rparr>"
    by (simp add: isCompletionOpen_def isAtOpen_def atQuery_def atStateOf_def atState_def
        isSlashOpen_def slashQuery_def startsWith_def MIN_AT_QUERY_LENGTH_def)
  then show ?thesis
    by (simp add: mount_def indexInRange_alt resetEffect_def clampEffect_def)
qed

lemma reachable_range: "reachable flt c \<Longrightarrow> indexInRange flt c"
  by (induction rule: reachable.induct) (simp_all add: mount_range step_range)

lemma resetDeps_activeTrigger:
  assumes "resetDeps p s = resetDeps p' s'"
  shows "activeTrigger (p, s) = activeTrigger (p', s')"
proof -
  from assms have q: "atQuery p s = atQuery p' s'"
    and o: "isCompletionOpen p s = isCompletionOpen p' s'"
    and sq: "slashQuery (text_st s) = slashQuery (text_st s')"
    by (simp_all add: resetDeps_def)
  have no_at: "\<And>p s. isSlashOpen (disabled p) (text_st s) \<Longrightarrow> atQuery p s = None"
    by (simp add: atQuery_def atStateOf_def atState_def)
  have at_some: "\<And>p s. isAtOpen p s \<Longrightarrow> atQuery p s \<noteq> None"
    by (auto simp: isAtOpen_def split: option.splits)
  have at_ns: "\<And>p s. isAtOpen p s \<Longrightarrow> \<not> isSlashOpen (disabled p) (text_st s)"
    by (auto simp: isAtOpen_def)
  show ?thesis
  proof (cases "isSlashOpen (disabled p) (text_st s)")
    case True
    then have "\<not> isAtOpen p' s'"
      using no_at [OF True] at_some [of p' s'] q by auto
    moreover from True o have "isCompletionOpen p' s'"
      by (simp add: isCompletionOpen_def)
    ultimately have "isSlashOpen (disabled p') (text_st s')"
      by (simp add: isCompletionOpen_def)
    with True sq show ?thesis
      by (simp add: activeTrigger_def)
  next
    case False
    show ?thesis
    proof (cases "isAtOpen p s")
      case True
      then have "\<not> isSlashOpen (disabled p') (text_st s')"
        using at_some [OF True] no_at [of p' s'] q by auto
      moreover from True o have "isCompletionOpen p' s'"
        by (simp add: isCompletionOpen_def)
      ultimately have "isAtOpen p' s'"
        by (simp add: isCompletionOpen_def)
      with True False \<open>\<not> isSlashOpen (disabled p') (text_st s')\<close> q show ?thesis
        by (simp add: activeTrigger_def)
    next
      case nat: False
      with False o have "\<not> isSlashOpen (disabled p') (text_st s')" "\<not> isAtOpen p' s'"
        by (simp_all add: isCompletionOpen_def)
      with False nat show ?thesis
        by (simp add: activeTrigger_def)
    qed
  qed
qed

lemma activeTrigger_index [simp]:
  "activeTrigger (p, s\<lparr>completionIndex := k\<rparr>) = activeTrigger (p, s)"
  by (simp add: activeTrigger_def)

lemma step_reset:
  assumes "activeTrigger (step flt ev c) \<noteq> activeTrigger c"
  shows "completionIndex (snd (step flt ev c)) = 0"
proof -
  obtain p s where c: "c = (p, s)" by (cases c)
  define p' where "p' = (case ev of Props q \<Rightarrow> q | _ \<Rightarrow> p)"
  define s' where "s' = handle flt ev p s"
  have st: "step flt ev c = (p', runEffects flt p s p' s')"
    by (simp add: step_def Let_def c p'_def s'_def)
  have "activeTrigger (p', runEffects flt p s p' s') = activeTrigger (p', s')"
    by (subst runEffects_index) (simp only: activeTrigger_index)
  with assms [unfolded st] have "activeTrigger (p', s') \<noteq> activeTrigger (p, s)"
    by (simp add: c)
  then have "resetDeps p s \<noteq> resetDeps p' s'"
    using resetDeps_activeTrigger [of p s p' s'] by auto
  then show ?thesis
    by (simp add: st runEffects_reset)
qed

text \<open>
  Claim C7. In every state the composer reaches from its first render, by any of its
  handlers and any change of props, with the effects run after each event, the highlighted
  index lies in \<open>[0, candidates.length - 1]\<close>, and is 0 when there is no candidate. And
  whenever an event changes the open trigger's kind or query (opening and closing
  included), the index is 0 afterwards.
\<close>

theorem highlighted_index_invariant:
  "(reachable flt c \<longrightarrow> indexInRange flt c)
   \<and> (activeTrigger (step flt ev c) \<noteq> activeTrigger c \<longrightarrow>
        completionIndex (snd (step flt ev c)) = 0)"
  using reachable_range [of flt c] step_reset [of flt ev c] by blast

theorem highlighted_index_invariant_witness:
  "reachable (\<lambda>items q. items)
     (step (\<lambda>items q. items) (Change ''@ab'' (Some 3))
       (step (\<lambda>items q. items) (KeyDown ArrowDown False)
         (step (\<lambda>items q. items) (Change ''@a'' (Some 2))
           (mount (\<lambda>items q. items)
             (enabledProps [] [itemInserting ''a'', itemInserting ''ab'', itemInserting ''b''])))))
   \<and> step (\<lambda>items q. items) (KeyDown ArrowDown False)
         (step (\<lambda>items q. items) (Change ''@a'' (Some 2))
           (mount (\<lambda>items q. items)
             (enabledProps [] [itemInserting ''a'', itemInserting ''ab'', itemInserting ''b'']))) =
       (enabledProps [] [itemInserting ''a'', itemInserting ''ab'', itemInserting ''b''],
        \<lparr>text_st = ''@a'', completionIndex = 1, cursorIndex = 2\<rparr>)
   \<and> activeTrigger
         (step (\<lambda>items q. items) (Change ''@ab'' (Some 3))
           (enabledProps [] [itemInserting ''a'', itemInserting ''ab'', itemInserting ''b''],
            \<lparr>text_st = ''@a'', completionIndex = 1, cursorIndex = 2\<rparr>))
       \<noteq> activeTrigger
         (enabledProps [] [itemInserting ''a'', itemInserting ''ab'', itemInserting ''b''],
          \<lparr>text_st = ''@a'', completionIndex = 1, cursorIndex = 2\<rparr>)
   \<and> completionIndex (snd
         (step (\<lambda>items q. items) (Change ''@ab'' (Some 3))
           (enabledProps [] [itemInserting ''a'', itemInserting ''ab'', itemInserting ''b''],
            \<lparr>text_st = ''@a'', completionIndex = 1, cursorIndex = 2\<rparr>))) = 0
   \<and> indexInRange (\<lambda>items q. items)
         (step (\<lambda>items q. items) (Change ''@ab'' (Some 3))
           (enabledProps [] [itemInserting ''a'', itemInserting ''ab'', itemInserting ''b''],
            \<lparr>text_st = ''@a'', completionIndex = 1, cursorIndex = 2\<rparr>))"
proof -
  let ?flt = "\<lambda>(items :: SlashItem list) (q :: string). items"
  let ?p = "enabledProps [] [itemInserting ''a'', itemInserting ''ab'', itemInserting ''b'']"
  let ?ca = "mount ?flt ?p"
  let ?cb = "step ?flt (Change ''@a'' (Some 2)) ?ca"
  let ?cc = "step ?flt (KeyDown ArrowDown False) ?cb"
  let ?cd = "step ?flt (Change ''@ab'' (Some 3)) ?cc"
  have ra: "reachable ?flt ?ca"
    by (rule reachable_mount)
  have rd: "reachable ?flt ?cd"
    by (intro reachable_step ra)
  have a: "?ca = (?p, \<lparr>text_st = [], completionIndex = 0, cursorIndex = 0\<rparr>)"
    by (simp add: mount_def resetEffect_def clampEffect_def composer_defs detect_defs)
  have b: "?cb = (?p, \<lparr>text_st = ''@a'', completionIndex = 0, cursorIndex = 2\<rparr>)"
    unfolding a by (simp add: step_defs composer_defs detect_defs)
  have c: "?cc = (?p, \<lparr>text_st = ''@a'', completionIndex = 1, cursorIndex = 2\<rparr>)"
    unfolding b by (simp add: step_defs composer_defs detect_defs)
  have t0: "activeTrigger (?p, \<lparr>text_st = ''@a'', completionIndex = 1, cursorIndex = 2\<rparr>) =
      Some (Mention, ''a'')"
    by (simp add: activeTrigger_def composer_defs detect_defs)
  have d: "step ?flt (Change ''@ab'' (Some 3))
       (?p, \<lparr>text_st = ''@a'', completionIndex = 1, cursorIndex = 2\<rparr>) =
      (?p, runEffects ?flt ?p \<lparr>text_st = ''@a'', completionIndex = 1, cursorIndex = 2\<rparr> ?p
             \<lparr>text_st = ''@ab'', completionIndex = 1, cursorIndex = 3\<rparr>)"
    by (simp add: step_def handle_def Let_def)
  have "activeTrigger (step ?flt (Change ''@ab'' (Some 3))
       (?p, \<lparr>text_st = ''@a'', completionIndex = 1, cursorIndex = 2\<rparr>)) =
      activeTrigger (?p, \<lparr>text_st = ''@ab'', completionIndex = 1, cursorIndex = 3\<rparr>)"
    unfolding d by (subst runEffects_index) (simp only: activeTrigger_index)
  also have "\<dots> = Some (Mention, ''ab'')"
    by (simp add: activeTrigger_def composer_defs detect_defs)
  finally have t1: "activeTrigger (step ?flt (Change ''@ab'' (Some 3))
       (?p, \<lparr>text_st = ''@a'', completionIndex = 1, cursorIndex = 2\<rparr>)) = Some (Mention, ''ab'')" .
  have ne: "activeTrigger (step ?flt (Change ''@ab'' (Some 3))
       (?p, \<lparr>text_st = ''@a'', completionIndex = 1, cursorIndex = 2\<rparr>))
     \<noteq> activeTrigger (?p, \<lparr>text_st = ''@a'', completionIndex = 1, cursorIndex = 2\<rparr>)"
    unfolding t0 t1 by simp
  from highlighted_index_invariant
    [where flt = ?flt and ev = "Change ''@ab'' (Some 3)"
       and c = "(?p, \<lparr>text_st = ''@a'', completionIndex = 1, cursorIndex = 2\<rparr>)"] ne
  have zero: "completionIndex (snd (step ?flt (Change ''@ab'' (Some 3))
       (?p, \<lparr>text_st = ''@a'', completionIndex = 1, cursorIndex = 2\<rparr>))) = 0"
    by blast
  from highlighted_index_invariant [where flt = ?flt and c = ?cd] rd
  have "indexInRange ?flt ?cd"
    by blast
  then have range: "indexInRange ?flt (step ?flt (Change ''@ab'' (Some 3))
       (?p, \<lparr>text_st = ''@a'', completionIndex = 1, cursorIndex = 2\<rparr>))"
    by (simp only: c)
  from rd c ne zero range show ?thesis
    by (simp only: simp_thms)
qed

section \<open>Properties of the file search\<close>

lemma callOnDebug_fields [simp]:
  "items (callOnDebug cb e st) = items st"
  "isLoading (callOnDebug cb e st) = isLoading st"
  "requestId (callOnDebug cb e st) = requestId st"
  "timer (callOnDebug cb e st) = timer st"
  "inFlight (callOnDebug cb e st) = inFlight st"
  "searchCalls (callOnDebug cb e st) = searchCalls st"
  "options (callOnDebug cb e st) = options st"
  "now (callOnDebug cb e st) = now st"
  by (simp_all add: callOnDebug_def split: option.splits)

lemma resume_stale:
  "requestId st \<noteq> currentId cl \<Longrightarrow> resume cl outcome st = Inr st"
  by (cases outcome) (simp_all add: resume_def tryBlock_def catchBlock_def finallyBlock_def)

lemma resume_returns: "\<exists>st'. resume cl outcome st = Inr st'"
  by (cases outcome)
     (simp_all add: resume_def tryBlock_def catchBlock_def finallyBlock_def Let_def)

lemma find_currentId:
  "find (\<lambda>cl. currentId cl = cid) xs = Some cl \<Longrightarrow> currentId cl = cid"
  by (induction xs) (auto split: if_splits)

lemma settle_stale:
  assumes "cid \<noteq> requestId st"
  shows "settle cid outcome st =
     Inr (st\<lparr>inFlight := filter (\<lambda>c. currentId c \<noteq> cid) (inFlight st)\<rparr>)"
proof (cases "find (\<lambda>cl. currentId cl = cid) (inFlight st)")
  case None
  then have "\<forall>c \<in> set (inFlight st). currentId c \<noteq> cid"
    by (simp add: find_None_iff)
  then have "filter (\<lambda>c. currentId c \<noteq> cid) (inFlight st) = inFlight st"
    by (simp add: filter_id_conv)
  with None show ?thesis
    by (simp add: settle_def)
next
  case (Some cl)
  from find_currentId [OF Some] assms
  have "requestId (st\<lparr>inFlight := filter (\<lambda>c. currentId c \<noteq> cid) (inFlight st)\<rparr>) \<noteq> currentId cl"
    by simp
  from resume_stale [OF this] Some show ?thesis
    by (simp add: settle_def)
qed

lemma settle_returns: "\<exists>st'. settle cid outcome st = Inr st'"
  using resume_returns by (simp add: settle_def split: option.splits)

lemma settle_changes_current:
  assumes "settle cid outcome st = Inr st'" and "displayed st' \<noteq> displayed st"
  shows "cid = requestId st"
proof (rule ccontr)
  assume "cid \<noteq> requestId st"
  from settle_stale [OF this, of outcome] assms(1)
  have "st' = st\<lparr>inFlight := filter (\<lambda>c. currentId c \<noteq> cid) (inFlight st)\<rparr>"
    by simp
  with assms(2) show False
    by (simp add: displayed_def)
qed

lemma render_changed_requestId:
  "opts \<noteq> options st \<Longrightarrow> requestId (render opts st) = requestId st + 1"
  by (simp add: render_def effect_def cleanup_def Let_def)

lemma bothInFlight_eq:
  "bothInFlight =
     \<lparr>items = [], isLoading = True, requestId = 2, options = searchOptions ''abc'',
      timer = None,
      inFlight =
        [\<lparr>currentId = 1, closureWorkspaceId = ''ws'', trimmed = ''ab'', closureLimit = 200,
          closureOnDebug = Some 0\<rparr>,
         \<lparr>currentId = 2, closureWorkspaceId = ''ws'', trimmed = ''abc'', closureLimit = 200,
          closureOnDebug = Some 0\<rparr>],
      searchCalls = [(''ws'', ''ab'', 200), (''ws'', ''abc'', 200)],
      debugLog =
        [\<lparr>timestamp = 200, source = ''client'', label = ''file/search'',
          payload = SearchPayload ''ws'' ''ab'' 200\<rparr>,
         \<lparr>timestamp = 400, source = ''client'', label = ''file/search'',
          payload = SearchPayload ''ws'' ''abc'' 200\<rparr>],
      now = 400\<rparr>"
  by (simp add: bothInFlight_def mountSearch_def render_def effect_def cleanup_def elapse_def
      fire_def callOnDebug_def searchOptions_def trimmedQuery_def trim_def isWhitespace_def
      noWorkspace_def Let_def)

lemma abcApplied_eq:
  "abcApplied =
     \<lparr>items = [''src/abc.ts''], isLoading = False, requestId = 2,
      options = searchOptions ''abc'', timer = None,
      inFlight =
        [\<lparr>currentId = 1, closureWorkspaceId = ''ws'', trimmed = ''ab'', closureLimit = 200,
          closureOnDebug = Some 0\<rparr>],
      searchCalls = [(''ws'', ''ab'', 200), (''ws'', ''abc'', 200)],
      debugLog =
        [\<lparr>timestamp = 200, source = ''client'', label = ''file/search'',
          payload = SearchPayload ''ws'' ''ab'' 200\<rparr>,
         \<lparr>timestamp = 400, source = ''client'', label = ''file/search'',
          payload = SearchPayload ''ws'' ''abc'' 200\<rparr>,
         \<lparr>timestamp = 400, source = ''server'', label = ''file/search response'',
          payload = CountPayload 1\<rparr>],
      now = 400\<rparr>"
  unfolding abcApplied_def bothInFlight_eq
  by (simp add: settle_def resume_def tryBlock_def finallyBlock_def callOnDebug_def Let_def)

lemma abcApplied_fields:
  "requestId abcApplied = 2" "items abcApplied = [''src/abc.ts'']" "isLoading abcApplied = False"
  "map currentId (inFlight abcApplied) = [1]"
  by (simp_all add: abcApplied_eq)

lemma abcApplied_stale:
  "settle 1 outcome abcApplied = Inr (abcApplied\<lparr>inFlight := []\<rparr>)"
proof -
  have "(1::int) \<noteq> requestId abcApplied"
    by (simp add: abcApplied_fields)
  from settle_stale [OF this, of outcome] show ?thesis
    by (simp add: abcApplied_eq)
qed

text \<open>
  Claim C1. When a call settles (with a response or with an error) for a request whose
  number is not the current value of \<open>requestId\<close>, nothing changes but the list of calls
  in flight: not the items, not the loading flag, not the log. So a settled call changes
  the displayed state only if its number is the current one. Every run of the effect for
  changed options (a new query, or \<open>null\<close> when the trigger closes) raises the counter,
  which makes every request dispatched before it stale. In the scenario (\<open>ab\<close> in
  flight, \<open>abc\<close> dispatched, the response for \<open>abc\<close> applied), the response for
  \<open>ab\<close> leaves the displayed candidates as they are.
\<close>

theorem stale_response_discarded:
  "(cid \<noteq> requestId st \<longrightarrow>
      settle cid outcome st =
        Inr (st\<lparr>inFlight := filter (\<lambda>c. currentId c \<noteq> cid) (inFlight st)\<rparr>))
   \<and> (\<forall>st'. settle cid outcome st = Inr st' \<and> displayed st' \<noteq> displayed st \<longrightarrow>
        cid = requestId st)
   \<and> (opts \<noteq> options st \<longrightarrow> requestId (render opts st) = requestId st + 1)
   \<and> displayed abcApplied = ([''src/abc.ts''], False)
   \<and> settle 1 (Inr (Array [''src/ab.ts''])) abcApplied = Inr (abcApplied\<lparr>inFlight := []\<rparr>)
   \<and> displayed (abcApplied\<lparr>inFlight := []\<rparr>) = ([''src/abc.ts''], False)"
proof (intro conjI allI impI)
  assume "cid \<noteq> requestId st"
  then show "settle cid outcome st =
        Inr (st\<lparr>inFlight := filter (\<lambda>c. currentId c \<noteq> cid) (inFlight st)\<rparr>)"
    by (rule settle_stale)
next
  fix st' assume "settle cid outcome st = Inr st' \<and> displayed st' \<noteq> displayed st"
  then show "cid = requestId st"
    using settle_changes_current by blast
next
  assume "opts \<noteq> options st"
  then show "requestId (render opts st) = requestId st + 1"
    by (rule render_changed_requestId)
next
  show "displayed abcApplied = ([''src/abc.ts''], False)"
    by (simp add: displayed_def abcApplied_fields)
next
  show "settle 1 (Inr (Array [''src/ab.ts''])) abcApplied = Inr (abcApplied\<lparr>inFlight := []\<rparr>)"
    by (rule abcApplied_stale)
next
  show "displayed (abcApplied\<lparr>inFlight := []\<rparr>) = ([''src/abc.ts''], False)"
    by (simp add: displayed_def abcApplied_fields)
qed

theorem stale_response_discarded_witness:
  "(1::int) \<noteq> requestId bothInFlight
   \<and> settle 1 (Inr (Array [''src/ab.ts''])) bothInFlight =
       Inr (bothInFlight\<lparr>inFlight := filter (\<lambda>c. currentId c \<noteq> 1) (inFlight bothInFlight)\<rparr>)
   \<and> settle 2 (Inr (Array [''src/abc.ts''])) bothInFlight = Inr abcApplied
   \<and> displayed abcApplied \<noteq> displayed bothInFlight
   \<and> (2::int) = requestId bothInFlight
   \<and> searchOptions ''abcd'' \<noteq> options bothInFlight
   \<and> requestId (render (searchOptions ''abcd'') bothInFlight) = 3"
proof -
  have a: "(1::int) \<noteq> requestId bothInFlight"
    by (simp add: bothInFlight_eq)
  have b: "searchOptions ''abcd'' \<noteq> options bothInFlight"
    by (simp add: bothInFlight_eq searchOptions_def)
  note inst = stale_response_discarded
    [where cid = 1 and st = bothInFlight and outcome = "Inr (Array [''src/ab.ts''])"
       and opts = "searchOptions ''abcd''"]
  from inst a
  have r: "settle 1 (Inr (Array [''src/ab.ts''])) bothInFlight =
       Inr (bothInFlight\<lparr>inFlight := filter (\<lambda>c. currentId c \<noteq> 1) (inFlight bothInFlight)\<rparr>)"
    by blast
  from inst b
  have "requestId (render (searchOptions ''abcd'') bothInFlight) = requestId bothInFlight + 1"
    by blast
  then have n: "requestId (render (searchOptions ''abcd'') bothInFlight) = 3"
    by (simp add: bothInFlight_eq)
  have s2: "settle 2 (Inr (Array [''src/abc.ts''])) bothInFlight = Inr abcApplied"
    unfolding abcApplied_eq bothInFlight_eq
    by (simp add: settle_def resume_def tryBlock_def finallyBlock_def callOnDebug_def Let_def)
  have df: "displayed abcApplied \<noteq> displayed bothInFlight"
    by (simp add: displayed_def abcApplied_eq bothInFlight_eq)
  from stale_response_discarded
    [where cid = 2 and st = bothInFlight and outcome = "Inr (Array [''src/abc.ts''])"] s2 df
  have cur: "(2::int) = requestId bothInFlight"
    by blast
  from a r s2 df cur b n show ?thesis
    by (simp only: simp_thms)
qed

subsection \<open>Failures of the search\<close>

lemma settle_failure_current:
  assumes f: "find (\<lambda>cl. currentId cl = cid) (inFlight st) = Some cl"
    and c: "cid = requestId st"
  shows "settle cid (Inl error) st =
     Inr ((callOnDebug (closureOnDebug cl)
            \<lparr>timestamp = now st, source = ''error'', label = ''file/search error'',
             payload = MessagePayload (case error of ErrorObject message \<Rightarrow> message
                                       | OtherThrown str \<Rightarrow> str)\<rparr>
            (st\<lparr>inFlight := filter (\<lambda>c. currentId c \<noteq> cid) (inFlight st)\<rparr>))
          \<lparr>items := [], isLoading := False\<rparr>)"
proof -
  let ?st = "st\<lparr>inFlight := filter (\<lambda>c. currentId c \<noteq> cid) (inFlight st)\<rparr>"
  from find_currentId [OF f] c have cur: "requestId ?st = currentId cl"
    by simp
  have "settle cid (Inl error) st = resume cl (Inl error) ?st"
    by (simp add: settle_def f)
  also have "\<dots> = Inr ((callOnDebug (closureOnDebug cl)
            \<lparr>timestamp = now st, source = ''error'', label = ''file/search error'',
             payload = MessagePayload (case error of ErrorObject message \<Rightarrow> message
                                       | OtherThrown str \<Rightarrow> str)\<rparr> ?st)
          \<lparr>items := [], isLoading := False\<rparr>)"
    using cur by (simp add: resume_def tryBlock_def catchBlock_def finallyBlock_def Let_def)
  finally show ?thesis .
qed

text \<open>
  Claim C8, as the code has it. Whatever a call settles with, the rest of the callback
  returns normally: no exception leaves the hook (the debug callback, fire-and-forget by
  its contract, does not throw). When the call of the request that is still current
  fails, the items become empty, the loading flag is cleared and, when a debug callback
  was given, one entry with the error's message is logged. When the call of a superseded
  request fails, the failure is dropped: items, loading flag and log stay as they are.
\<close>

theorem search_failure_handled:
  "(\<exists>st'. settle cid outcome st = Inr st')
   \<and> (\<forall>cl. find (\<lambda>cl. currentId cl = cid) (inFlight st) = Some cl \<and> cid = requestId st \<longrightarrow>
        (\<exists>st'. settle cid (Inl error) st = Inr st'
           \<and> items st' = [] \<and> isLoading st' = False
           \<and> debugLog st' =
               (case closureOnDebug cl of
                  None \<Rightarrow> debugLog st
                | Some _ \<Rightarrow>
                    debugLog st @
                      [\<lparr>timestamp = now st, source = ''error'', label = ''file/search error'',
                        payload = MessagePayload (case error of ErrorObject message \<Rightarrow> message
                                                  | OtherThrown str \<Rightarrow> str)\<rparr>])))
   \<and> (cid \<noteq> requestId st \<longrightarrow>
        (\<exists>st'. settle cid (Inl error) st = Inr st'
           \<and> items st' = items st \<and> isLoading st' = isLoading st \<and> debugLog st' = debugLog st))"
proof (intro conjI allI impI)
  show "\<exists>st'. settle cid outcome st = Inr st'"
    by (rule settle_returns)
next
  fix cl
  assume a: "find (\<lambda>cl. currentId cl = cid) (inFlight st) = Some cl \<and> cid = requestId st"
  then have f: "find (\<lambda>cl. currentId cl = cid) (inFlight st) = Some cl"
    and c: "cid = requestId st"
    by blast+
  from settle_failure_current [OF f c, of error]
  have "settle cid (Inl error) st =
     Inr ((callOnDebug (closureOnDebug cl)
            \<lparr>timestamp = now st, source = ''error'', label = ''file/search error'',
             payload = MessagePayload (case error of ErrorObject message \<Rightarrow> message
                                       | OtherThrown str \<Rightarrow> str)\<rparr>
            (st\<lparr>inFlight := filter (\<lambda>c. currentId c \<noteq> cid) (inFlight st)\<rparr>))
          \<lparr>items := [], isLoading := False\<rparr>)" .
  then show "\<exists>st'. settle cid (Inl error) st = Inr st'
           \<and> items st' = [] \<and> isLoading st' = False
           \<and> debugLog st' =
               (case closureOnDebug cl of
                  None \<Rightarrow> debugLog st
                | Some _ \<Rightarrow>
                    debugLog st @
                      [\<lparr>timestamp = now st, source = ''error'', label = ''file/search error'',
                        payload = MessagePayload (case error of ErrorObject message \<Rightarrow> message
                                                  | OtherThrown str \<Rightarrow> str)\<rparr>])"
    by (simp add: callOnDebug_def split: option.splits)
next
  assume "cid \<noteq> requestId st"
  from settle_stale [OF this, of "Inl error"]
  show "\<exists>st'. settle cid (Inl error) st = Inr st'
           \<and> items st' = items st \<and> isLoading st' = isLoading st \<and> debugLog st' = debugLog st"
    by simp
qed

theorem stale_failure_not_reported:
  "settle 1 (Inl (ErrorObject ''boom'')) abcApplied = Inr (abcApplied\<lparr>inFlight := []\<rparr>)
   \<and> items (abcApplied\<lparr>inFlight := []\<rparr>) = [''src/abc.ts'']
   \<and> debugLog (abcApplied\<lparr>inFlight := []\<rparr>) = debugLog abcApplied"
  using abcApplied_stale [of "Inl (ErrorObject ''boom'')"]
  by (simp add: abcApplied_fields)

theorem search_failure_handled_witness:
  "find (\<lambda>cl. currentId cl = 2) (inFlight bothInFlight) =
     Some \<lparr>currentId = 2, closureWorkspaceId = ''ws'', trimmed = ''abc'', closureLimit = 200,
           closureOnDebug = Some 0\<rparr>
   \<and> (2::int) = requestId bothInFlight
   \<and> (\<exists>st'. settle 2 (Inl (ErrorObject ''boom'')) bothInFlight = Inr st'
         \<and> items st' = [] \<and> isLoading st' = False
         \<and> debugLog st' = debugLog bothInFlight @
             [\<lparr>timestamp = 400, source = ''error'', label = ''file/search error'',
               payload = MessagePayload ''boom''\<rparr>])
   \<and> (1::int) \<noteq> requestId bothInFlight
   \<and> (\<exists>st'. settle 1 (Inl (ErrorObject ''boom'')) bothInFlight = Inr st'
         \<and> items st' = [] \<and> isLoading st' = True \<and> debugLog st' = debugLog bothInFlight)"
proof -
  let ?cl = "\<lparr>currentId = 2, closureWorkspaceId = ''ws'', trimmed = ''abc'', closureLimit = 200,
           closureOnDebug = Some (0::nat)\<rparr>"
  have f: "find (\<lambda>cl. currentId cl = 2) (inFlight bothInFlight) = Some ?cl"
    by (simp add: bothInFlight_eq)
  have c: "(2::int) = requestId bothInFlight"
    by (simp add: bothInFlight_eq)
  have n: "(1::int) \<noteq> requestId bothInFlight"
    by (simp add: bothInFlight_eq)
  have fl: "items bothInFlight = []" "isLoading bothInFlight = True" "now bothInFlight = 400"
    by (simp_all add: bothInFlight_eq)
  from search_failure_handled
    [where cid = 2 and st = bothInFlight and error = "ErrorObject ''boom''"] f c
  have r2: "\<exists>st'. settle 2 (Inl (ErrorObject ''boom'')) bothInFlight = Inr st'
         \<and> items st' = [] \<and> isLoading st' = False
         \<and> debugLog st' = debugLog bothInFlight @
             [\<lparr>timestamp = 400, source = ''error'', label = ''file/search error'',
               payload = MessagePayload ''boom''\<rparr>]"
    by (auto simp: fl)
  from search_failure_handled
    [where cid = 1 and st = bothInFlight and error = "ErrorObject ''boom''"] n
  have r1: "\<exists>st'. settle 1 (Inl (ErrorObject ''boom'')) bothInFlight = Inr st'
         \<and> items st' = [] \<and> isLoading st' = True \<and> debugLog st' = debugLog bothInFlight"
    by (auto simp: fl)
  from f c r2 n r1 show ?thesis
    by (simp only: simp_thms)
qed

subsection \<open>Debounce\<close>

lemma render_changed:
  assumes "opts \<noteq> options st"
  shows "timer (render opts st) = expectedTimer (render opts st)"
    and "options (render opts st) = opts"
    and "searchCalls (render opts st) = searchCalls st"
    and "now (render opts st) = now st"
  using assms
  by (auto simp: render_def effect_def cleanup_def expectedTimer_def gatePasses_def Let_def
      Suc_le_eq)

lemma mountSearch_fresh:
  "timer (mountSearch opts) = expectedTimer (mountSearch opts)"
  "options (mountSearch opts) = opts"
  "searchCalls (mountSearch opts) = []"
  by (auto simp: mountSearch_def effect_def expectedTimer_def gatePasses_def Let_def Suc_le_eq)

lemma elapse_quiet:
  assumes "timer st = expectedTimer st" and "gap < debounceMs (options st)"
  shows "elapse gap st = st\<lparr>now := now st + gap\<rparr>"
  using assms by (simp add: elapse_def expectedTimer_def Let_def split: if_splits)

lemma elapse_gated:
  assumes "timer st = expectedTimer st" and "\<not> gatePasses (options st)"
  shows "searchCalls (elapse d st) = searchCalls st"
  using assms by (simp add: elapse_def expectedTimer_def Let_def)

lemma elapse_fires:
  assumes "timer st = expectedTimer st" and "gatePasses (options st)"
    and "debounceMs (options st) \<le> d"
  shows "searchCalls (elapse d st) =
           searchCalls st @ [(the (workspaceId (options st)),
                              trimmedQuery (queryOpt (options st)), limit (options st))]"
    and "timer (elapse d st) = None"
  using assms
  by (simp_all add: elapse_def expectedTimer_def fire_def Let_def)

lemma arrival_quiet:
  assumes fresh: "timer st = expectedTimer st" and gap: "gap < debounceMs (options st)"
    and new: "q \<noteq> queryOpt (options st)"
  shows "timer (render ((options st)\<lparr>queryOpt := q\<rparr>) (elapse gap st)) =
           expectedTimer (render ((options st)\<lparr>queryOpt := q\<rparr>) (elapse gap st))"
    and "options (render ((options st)\<lparr>queryOpt := q\<rparr>) (elapse gap st)) =
           (options st)\<lparr>queryOpt := q\<rparr>"
    and "searchCalls (render ((options st)\<lparr>queryOpt := q\<rparr>) (elapse gap st)) = searchCalls st"
proof -
  let ?st = "st\<lparr>now := now st + gap\<rparr>"
  have e: "elapse gap st = ?st"
    using fresh gap by (rule elapse_quiet)
  have ch: "(options st)\<lparr>queryOpt := q\<rparr> \<noteq> options ?st"
  proof
    assume "(options st)\<lparr>queryOpt := q\<rparr> = options ?st"
    then have "queryOpt ((options st)\<lparr>queryOpt := q\<rparr>) = queryOpt (options st)"
      by simp
    with new show False by simp
  qed
  from render_changed [OF ch]
  show "timer (render ((options st)\<lparr>queryOpt := q\<rparr>) (elapse gap st)) =
           expectedTimer (render ((options st)\<lparr>queryOpt := q\<rparr>) (elapse gap st))"
    and "options (render ((options st)\<lparr>queryOpt := q\<rparr>) (elapse gap st)) =
           (options st)\<lparr>queryOpt := q\<rparr>"
    and "searchCalls (render ((options st)\<lparr>queryOpt := q\<rparr>) (elapse gap st)) = searchCalls st"
    unfolding e by simp_all
qed

lemma arrivals_quiet:
  assumes "timer st = expectedTimer st"
    and "\<forall>(gap, q) \<in> set run. gap < debounceMs (options st)"
    and "distinct_adj (queryOpt (options st) # map snd run)"
  shows "timer (arrivals st run) = expectedTimer (arrivals st run)
     \<and> options (arrivals st run) =
         (options st)\<lparr>queryOpt := last (queryOpt (options st) # map snd run)\<rparr>
     \<and> searchCalls (arrivals st run) = searchCalls st"
  using assms
proof (induction run arbitrary: st)
  case Nil
  then show ?case by simp
next
  case (Cons a run)
  obtain gap q where a: "a = (gap, q)" by (cases a)
  let ?st = "render ((options st)\<lparr>queryOpt := q\<rparr>) (elapse gap st)"
  from Cons.prems have gap: "gap < debounceMs (options st)"
    and new: "q \<noteq> queryOpt (options st)"
    by (auto simp: a)
  note step = arrival_quiet [OF Cons.prems(1) gap new]
  have "timer (arrivals ?st run) = expectedTimer (arrivals ?st run)
     \<and> options (arrivals ?st run) =
         (options ?st)\<lparr>queryOpt := last (queryOpt (options ?st) # map snd run)\<rparr>
     \<and> searchCalls (arrivals ?st run) = searchCalls ?st"
  proof (rule Cons.IH)
    show "timer ?st = expectedTimer ?st" by (rule step(1))
    show "\<forall>(gap, q) \<in> set run. gap < debounceMs (options ?st)"
      using Cons.prems(2) by (simp add: step(2))
    show "distinct_adj (queryOpt (options ?st) # map snd run)"
      using Cons.prems(3) by (simp add: step(2) a)
  qed
  then show ?case
    by (simp add: a step(2,3))
qed

lemma elapse_options [simp]: "options (elapse d st) = options st"
  by (simp add: elapse_def fire_def callOnDebug_def Let_def split: option.splits)

lemma run_from_fresh:
  assumes fresh: "timer st = expectedTimer st"
    and gaps: "\<forall>(gap, q) \<in> set run. gap < debounceMs (options st)"
    and adj: "distinct_adj (queryOpt (options st) # map snd run)"
    and d: "debounceMs (options st) \<le> d"
  shows "gatePasses ((options st)\<lparr>queryOpt := last (queryOpt (options st) # map snd run)\<rparr>) \<Longrightarrow>
         searchCalls (elapse d (arrivals st run)) =
           searchCalls st @ [(the (workspaceId (options st)),
                              trimmedQuery (last (queryOpt (options st) # map snd run)),
                              limit (options st))]
         \<and> timer (elapse d (arrivals st run)) = None"
    and "\<not> gatePasses ((options st)\<lparr>queryOpt := last (queryOpt (options st) # map snd run)\<rparr>) \<Longrightarrow>
         searchCalls (elapse d (arrivals st run)) = searchCalls st"
proof -
  let ?end = "arrivals st run"
  from arrivals_quiet [OF fresh gaps adj]
  have t: "timer ?end = expectedTimer ?end"
    and o: "options ?end = (options st)\<lparr>queryOpt := last (queryOpt (options st) # map snd run)\<rparr>"
    and c: "searchCalls ?end = searchCalls st"
    by simp_all
  {
    assume "gatePasses ((options st)\<lparr>queryOpt := last (queryOpt (options st) # map snd run)\<rparr>)"
    then have g: "gatePasses (options ?end)"
      unfolding o .
    have "debounceMs (options ?end) \<le> d"
      using d by (simp add: o)
    from elapse_fires [OF t g this]
    show "searchCalls (elapse d ?end) =
           searchCalls st @ [(the (workspaceId (options st)),
                              trimmedQuery (last (queryOpt (options st) # map snd run)),
                              limit (options st))]
         \<and> timer (elapse d ?end) = None"
      by (simp add: o c)
  }
  {
    assume "\<not> gatePasses ((options st)\<lparr>queryOpt := last (queryOpt (options st) # map snd run)\<rparr>)"
    then have "\<not> gatePasses (options ?end)"
      unfolding o .
    from elapse_gated [OF t this, of d]
    show "searchCalls (elapse d ?end) = searchCalls st"
      by (simp add: c)
  }
qed

text \<open>
  Claim C2, as the code has it. Take a run of queries, each different from the one before
  it and arriving less than \<open>debounceMs\<close> after it, and let at least \<open>debounceMs\<close> pass
  after the last one. When the hook is enabled, has a workspace, and the last query is not
  empty once trimmed, exactly one call of \<open>searchFiles\<close> is made, with the trimmed last
  query: the timeout of every earlier query was cleared before it was due. This holds for
  a run that starts with the hook's first render, and for a run that starts in any state
  (the first query of the run differing from the current one), counted from the first
  arrival. When the gate stops the last query, the run makes no call at all.
\<close>

theorem debounce_dispatches_last:
  "((\<forall>(gap, q') \<in> set run. gap < debounceMs opts)
      \<and> distinct_adj (queryOpt opts # map snd run) \<and> debounceMs opts \<le> d \<longrightarrow>
      (gatePasses (opts\<lparr>queryOpt := last (queryOpt opts # map snd run)\<rparr>) \<longrightarrow>
         searchCalls (elapse d (arrivals (mountSearch opts) run)) =
           [(the (workspaceId opts), trimmedQuery (last (queryOpt opts # map snd run)), limit opts)]
         \<and> timer (elapse d (arrivals (mountSearch opts) run)) = None)
      \<and> (\<not> gatePasses (opts\<lparr>queryOpt := last (queryOpt opts # map snd run)\<rparr>) \<longrightarrow>
         searchCalls (elapse d (arrivals (mountSearch opts) run)) = []))
   \<and> ((\<forall>(gap, q') \<in> set run. gap < debounceMs (options st))
      \<and> q \<noteq> queryOpt (options st)
      \<and> distinct_adj (q # map snd run) \<and> debounceMs (options st) \<le> d
      \<and> gatePasses ((options st)\<lparr>queryOpt := last (q # map snd run)\<rparr>) \<longrightarrow>
      searchCalls (elapse d (arrivals st ((g, q) # run))) =
        searchCalls (elapse g st) @
          [(the (workspaceId (options st)), trimmedQuery (last (q # map snd run)),
            limit (options st))]
      \<and> timer (elapse d (arrivals st ((g, q) # run))) = None)"
proof (intro conjI impI)
  assume a: "(\<forall>(gap, q') \<in> set run. gap < debounceMs opts)
      \<and> distinct_adj (queryOpt opts # map snd run) \<and> debounceMs opts \<le> d"
  let ?m = "mountSearch opts"
  from a have gaps: "\<forall>(gap, q) \<in> set run. gap < debounceMs (options ?m)"
    and adj: "distinct_adj (queryOpt (options ?m) # map snd run)"
    and d: "debounceMs (options ?m) \<le> d"
    by (simp_all add: mountSearch_fresh)
  note run = run_from_fresh [OF mountSearch_fresh(1) gaps adj d]
  {
    assume "gatePasses (opts\<lparr>queryOpt := last (queryOpt opts # map snd run)\<rparr>)"
    then have "gatePasses ((options ?m)\<lparr>queryOpt := last (queryOpt (options ?m) # map snd run)\<rparr>)"
      by (simp add: mountSearch_fresh)
    from run(1) [OF this]
    show "searchCalls (elapse d (arrivals ?m run)) =
           [(the (workspaceId opts), trimmedQuery (last (queryOpt opts # map snd run)), limit opts)]"
      and "timer (elapse d (arrivals ?m run)) = None"
      by (simp_all add: mountSearch_fresh)
  }
  {
    assume "\<not> gatePasses (opts\<lparr>queryOpt := last (queryOpt opts # map snd run)\<rparr>)"
    then have "\<not> gatePasses ((options ?m)\<lparr>queryOpt := last (queryOpt (options ?m) # map snd run)\<rparr>)"
      by (simp add: mountSearch_fresh)
    from run(2) [OF this]
    show "searchCalls (elapse d (arrivals ?m run)) = []"
      by (simp add: mountSearch_fresh)
  }
next
  assume a: "(\<forall>(gap, q') \<in> set run. gap < debounceMs (options st))
      \<and> q \<noteq> queryOpt (options st)
      \<and> distinct_adj (q # map snd run) \<and> debounceMs (options st) \<le> d
      \<and> gatePasses ((options st)\<lparr>queryOpt := last (q # map snd run)\<rparr>)"
  let ?opts = "(options st)\<lparr>queryOpt := q\<rparr>"
  let ?f = "render ?opts (elapse g st)"
  have ch: "?opts \<noteq> options (elapse g st)"
  proof
    assume "?opts = options (elapse g st)"
    then have "queryOpt ?opts = queryOpt (options st)"
      by simp
    with a show False by simp
  qed
  note f = render_changed [OF ch]
  from a have gaps: "\<forall>(gap, q) \<in> set run. gap < debounceMs (options ?f)"
    and adj: "distinct_adj (queryOpt (options ?f) # map snd run)"
    and d: "debounceMs (options ?f) \<le> d"
    and gate: "gatePasses ((options ?f)\<lparr>queryOpt := last (queryOpt (options ?f) # map snd run)\<rparr>)"
    by (simp_all add: f(2))
  from run_from_fresh(1) [OF f(1) gaps adj d gate]
  show "searchCalls (elapse d (arrivals st ((g, q) # run))) =
        searchCalls (elapse g st) @
          [(the (workspaceId (options st)), trimmedQuery (last (q # map snd run)),
            limit (options st))]"
    and "timer (elapse d (arrivals st ((g, q) # run))) = None"
    by (simp_all add: f(2,3))
qed

lemmas search_defs =
  mountSearch_def render_def effect_def cleanup_def elapse_def fire_def callOnDebug_def
  searchOptions_def trimmedQuery_def trim_def isWhitespace_def noWorkspace_def Let_def

theorem blank_last_query_dispatches_nothing:
  "searchCalls
     (elapse 200 (arrivals (mountSearch (searchOptions ''a'')) [(50, Some ''ab''), (50, Some '' '')]))
   = []"
  by (simp add: search_defs)

theorem debounce_dispatches_last_witness:
  "(50::nat) < debounceMs (searchOptions ''a'') \<and> (199::nat) < debounceMs (searchOptions ''a'')
   \<and> distinct_adj [Some ''a'', Some ''ab'', Some ''abc '']
   \<and> debounceMs (searchOptions ''a'') \<le> 200
   \<and> gatePasses ((searchOptions ''a'')\<lparr>queryOpt := Some ''abc ''\<rparr>)
   \<and> searchCalls
        (elapse 200 (arrivals (mountSearch (searchOptions ''a''))
           [(50, Some ''ab''), (199, Some ''abc '')])) = [(''ws'', ''abc'', 200)]
   \<and> timer
        (elapse 200 (arrivals (mountSearch (searchOptions ''a''))
           [(50, Some ''ab''), (199, Some ''abc '')])) = None
   \<and> (100::nat) < debounceMs (options bothInFlight)
   \<and> Some ''abcd'' \<noteq> queryOpt (options bothInFlight)
   \<and> distinct_adj [Some ''abcd'', Some ''abcde'']
   \<and> debounceMs (options bothInFlight) \<le> 200
   \<and> gatePasses ((options bothInFlight)\<lparr>queryOpt := Some ''abcde''\<rparr>)
   \<and> searchCalls
        (elapse 200 (arrivals bothInFlight [(10, Some ''abcd''), (100, Some ''abcde'')])) =
       [(''ws'', ''ab'', 200), (''ws'', ''abc'', 200), (''ws'', ''abcde'', 200)]"
proof -
  let ?opts = "searchOptions ''a''"
  let ?run = "[(50::nat, Some ''ab''), (199, Some ''abc '')]"
  have g1: "(50::nat) < debounceMs ?opts" and g2: "(199::nat) < debounceMs ?opts"
    and d: "debounceMs ?opts \<le> 200"
    by (simp_all add: searchOptions_def)
  have gaps: "\<forall>(gap, q') \<in> set ?run. gap < debounceMs ?opts"
    using g1 g2 by simp
  have adj: "distinct_adj [Some ''a'', Some ''ab'', Some ''abc '']"
    by simp
  then have adj': "distinct_adj (queryOpt ?opts # map snd ?run)"
    by (simp add: searchOptions_def)
  have l: "last (queryOpt ?opts # map snd ?run) = Some ''abc ''"
    by simp
  have t: "trimmedQuery (Some ''abc '') = ''abc''"
    by (simp add: trimmedQuery_def trim_def isWhitespace_def)
  have gate: "gatePasses (?opts\<lparr>queryOpt := Some ''abc ''\<rparr>)"
    by (simp add: gatePasses_def t) (simp add: searchOptions_def noWorkspace_def)
  from debounce_dispatches_last [where opts = ?opts and run = ?run and d = 200] gaps adj' d
  have "gatePasses (?opts\<lparr>queryOpt := last (queryOpt ?opts # map snd ?run)\<rparr>) \<longrightarrow>
         searchCalls (elapse 200 (arrivals (mountSearch ?opts) ?run)) =
           [(the (workspaceId ?opts), trimmedQuery (last (queryOpt ?opts # map snd ?run)), limit ?opts)]
         \<and> timer (elapse 200 (arrivals (mountSearch ?opts) ?run)) = None"
    by blast
  with gate have "searchCalls (elapse 200 (arrivals (mountSearch ?opts) ?run)) =
           [(the (workspaceId ?opts), trimmedQuery (Some ''abc ''), limit ?opts)]
         \<and> timer (elapse 200 (arrivals (mountSearch ?opts) ?run)) = None"
    unfolding l by blast
  then have r: "searchCalls (elapse 200 (arrivals (mountSearch ?opts) ?run)) = [(''ws'', ''abc'', 200)]"
    and tm: "timer (elapse 200 (arrivals (mountSearch ?opts) ?run)) = None"
    unfolding t by (simp_all add: searchOptions_def)
  let ?st = bothInFlight
  let ?more = "[(100::nat, Some ''abcde'')]"
  have o: "options ?st = searchOptions ''abc''"
    by (simp add: bothInFlight_eq)
  have h1: "(100::nat) < debounceMs (options ?st)" and h4: "debounceMs (options ?st) \<le> 200"
    and h2: "Some ''abcd'' \<noteq> queryOpt (options ?st)"
    by (simp_all add: o searchOptions_def)
  have h3: "distinct_adj [Some ''abcd'', Some ''abcde'']"
    by simp
  have t2: "trimmedQuery (Some ''abcde'') = ''abcde''"
    by (simp add: trimmedQuery_def trim_def isWhitespace_def)
  have h5: "gatePasses ((options ?st)\<lparr>queryOpt := Some ''abcde''\<rparr>)"
    by (simp add: gatePasses_def t2) (simp add: o searchOptions_def noWorkspace_def)
  have before: "searchCalls (elapse 10 ?st) = [(''ws'', ''ab'', 200), (''ws'', ''abc'', 200)]"
    by (simp add: bothInFlight_eq elapse_def)
  from debounce_dispatches_last
    [where st = ?st and run = ?more and q = "Some ''abcd''" and g = 10 and d = 200] h1 h2 h3 h4 h5
  have "searchCalls (elapse 200 (arrivals ?st ((10, Some ''abcd'') # ?more))) =
        searchCalls (elapse 10 ?st) @
          [(the (workspaceId (options ?st)), trimmedQuery (last (Some ''abcd'' # map snd ?more)),
            limit (options ?st))]"
    by simp
  then have r2: "searchCalls (elapse 200 (arrivals ?st [(10, Some ''abcd''), (100, Some ''abcde'')])) =
       [(''ws'', ''ab'', 200), (''ws'', ''abc'', 200), (''ws'', ''abcde'', 200)]"
    unfolding before by (simp add: t2 o searchOptions_def)
  from g1 g2 adj d gate r tm h1 h2 h3 h4 h5 r2 show ?thesis
    by (simp only: simp_thms)
qed

end
